theory Spec2Isabelle
  imports Main "HOL-Library.Multiset"
begin

section \<open>The OBB tree of hoomd/hpmc/OBBTree.h\<close>

text \<open>
  A shallow embedding of \<^verbatim>\<open>OBBTree<node_capacity>\<close>: the node arena, the recursive builder
  \<^verbatim>\<open>buildNode\<close>, the skip pass \<^verbatim>\<open>updateSkip\<close> and the stackless \<^verbatim>\<open>query\<close>.

  Conventions.
  \<^item> \<^verbatim>\<open>unsigned int\<close> values are natural numbers; where the source can wrap (doubling the
    capacity, counting nodes and tests, adding the skip) the model reduces modulo \<open>2^32\<close>.
  \<^item> The OBB primitive, the OBB fitter, the overlap test and the allocator are not part of the
    header; they are the fields of an environment record passed to every operation. The test
    \<^verbatim>\<open>dot(obbs[i].center - my_obb.center, my_axes.row0) < 0\<close> is floating point arithmetic on
    two OBBs and is one such field.
  \<^item> An exception, and a read or write outside an array (undefined behaviour in C++), is a
    value \<open>Inl (e, t)\<close> carrying the tree as it is when the operation stops.
  \<^item> \<^verbatim>\<open>buildNode\<close>, \<^verbatim>\<open>updateSkip\<close> and the loop of \<^verbatim>\<open>query\<close> need not return on every arena; they
    are partial functions in the option monad, \<open>None\<close> meaning that the call does not return.
\<close>

subsection \<open>Nodes, tree state, environment\<close>

definition OBB_INVALID_NODE :: nat where
  "OBB_INVALID_NODE = 4294967295"

definition UINT_RANGE :: nat where
  "UINT_RANGE = 4294967296"

record 'obb OBBNode =
  obb :: 'obb
  left :: nat
  right :: nat
  parent :: nat
  skip :: nat
  particles :: "nat list"
  num_particles :: nat

record 'obb OBBTree =
  m_nodes :: "'obb OBBNode list"
  m_num_nodes :: nat
  m_node_capacity :: nat
  m_root :: nat
  m_mapping :: "nat list"

text \<open>
  The external collaborators: \<open>compute_obb\<close> fits an OBB to a point cloud with an inflation
  radius, \<open>overlap\<close> is the pairwise test, \<open>getCorners\<close> the corner extraction,
  \<open>proj_negative a my_obb\<close> the sign test of the partition sweep, \<open>default_obb\<close> the value of
  \<^verbatim>\<open>OBB()\<close>, \<open>zero_radius\<close> the literal \<^verbatim>\<open>0.0\<close>, and \<open>memalign_ok c\<close> says whether
  \<^verbatim>\<open>posix_memalign\<close> succeeds for a block of \<open>c\<close> nodes.
\<close>

record ('obb, 'pt, 'r) OBBEnv =
  compute_obb :: "'pt list \<Rightarrow> 'r \<Rightarrow> 'obb"
  overlap :: "'obb \<Rightarrow> 'obb \<Rightarrow> bool"
  getCorners :: "'obb \<Rightarrow> 'pt list"
  proj_negative :: "'obb \<Rightarrow> 'obb \<Rightarrow> bool"
  default_obb :: 'obb
  zero_radius :: 'r
  memalign_ok :: "nat \<Rightarrow> bool"

datatype array_id = Obbs | Idx | Coords | Mapping | Nodes | Particles

datatype error = AllocationError | OutOfBounds array_id | UnknownParticle

text \<open>
  \<^verbatim>\<open>OBBNode()\<close>. The constructor leaves the inline array \<^verbatim>\<open>particles[node_capacity]\<close>
  indeterminate; the model fills it with zeros. Only the first \<open>num_particles\<close> entries are read.
\<close>

definition OBBNode_default :: "('obb, 'pt, 'r) OBBEnv \<Rightarrow> nat \<Rightarrow> 'obb OBBNode" where
  "OBBNode_default X node_capacity =
     \<lparr>obb = default_obb X, left = OBB_INVALID_NODE, right = OBB_INVALID_NODE,
      parent = OBB_INVALID_NODE, skip = 0, particles = replicate node_capacity 0,
      num_particles = 0\<rparr>"

definition OBBTree_new :: "'obb OBBTree" where
  "OBBTree_new = \<lparr>m_nodes = [], m_num_nodes = 0, m_node_capacity = 0, m_root = 0, m_mapping = []\<rparr>"

definition init :: "'obb OBBTree \<Rightarrow> nat \<Rightarrow> 'obb OBBTree" where
  "init t N = t\<lparr>m_num_nodes := 0, m_root := OBB_INVALID_NODE, m_mapping := replicate N OBB_INVALID_NODE\<rparr>"

subsection \<open>The arena: \<^verbatim>\<open>allocateNode\<close>\<close>

text \<open>
  \<open>m_nodes\<close> is the allocated block, \<open>m_node_capacity\<close> long. A fresh block is indeterminate in
  the source; the model fills it with default nodes (\<^verbatim>\<open>allocateNode\<close> assigns \<^verbatim>\<open>OBBNode()\<close> to a
  slot before anything reads it). When doubling wraps to a capacity below \<open>m_num_nodes\<close> the
  \<^verbatim>\<open>memcpy\<close> runs past the new block: \<open>OutOfBounds Nodes\<close>.
\<close>

definition place_node :: "('obb, 'pt, 'r) OBBEnv \<Rightarrow> nat \<Rightarrow> 'obb OBBTree \<Rightarrow> (error \<times> 'obb OBBTree) + ('obb OBBTree \<times> nat)" where
  "place_node X node_capacity t =
     (if m_num_nodes t < length (m_nodes t)
      then Inr (t\<lparr>m_nodes := (m_nodes t)[m_num_nodes t := OBBNode_default X node_capacity],
                 m_num_nodes := (m_num_nodes t + 1) mod UINT_RANGE\<rparr>, m_num_nodes t)
      else Inl (OutOfBounds Nodes, t))"

definition allocateNode :: "('obb, 'pt, 'r) OBBEnv \<Rightarrow> nat \<Rightarrow> 'obb OBBTree \<Rightarrow> (error \<times> 'obb OBBTree) + ('obb OBBTree \<times> nat)" where
  "allocateNode X node_capacity t =
     (if m_num_nodes t \<ge> m_node_capacity t then
        (let doubled = (m_node_capacity t * 2) mod UINT_RANGE;
             m_new_node_capacity = (if doubled = 0 then 16 else doubled)
         in if \<not> memalign_ok X m_new_node_capacity then Inl (AllocationError, t)
            else if m_num_nodes t \<le> length (m_nodes t) \<and> m_num_nodes t \<le> m_new_node_capacity
            then place_node X node_capacity
                   (t\<lparr>m_nodes := take (m_num_nodes t) (m_nodes t)
                                   @ replicate (m_new_node_capacity - m_num_nodes t) (OBBNode_default X node_capacity),
                      m_node_capacity := m_new_node_capacity\<rparr>)
            else Inl (OutOfBounds Nodes, t))
      else place_node X node_capacity t)"

definition write_node :: "'obb OBBTree \<Rightarrow> nat \<Rightarrow> ('obb OBBNode \<Rightarrow> 'obb OBBNode) \<Rightarrow> (error \<times> 'obb OBBTree) + 'obb OBBTree" where
  "write_node t i f =
     (if i < length (m_nodes t) then Inr (t\<lparr>m_nodes := (m_nodes t)[i := f (m_nodes t ! i)]\<rparr>)
      else Inl (OutOfBounds Nodes, t))"

subsection \<open>The builder: \<^verbatim>\<open>buildNode\<close> and \<^verbatim>\<open>buildTree\<close>\<close>

text \<open>The loop of the leaf case: \<^verbatim>\<open>particles[i] = idx[start+i]; m_mapping[idx[start+i]] = new_node\<close>.\<close>

function assign_particles ::
  "nat \<Rightarrow> nat list \<Rightarrow> nat \<Rightarrow> nat \<Rightarrow> nat \<Rightarrow> 'obb OBBTree \<Rightarrow> (error \<times> 'obb OBBTree) + 'obb OBBTree" where
  "assign_particles new_node idx start len i t =
     (if i < len then
        if start + i < length idx then
          (let p = idx ! (start + i) in
           if new_node < length (m_nodes t) then
             if i < length (particles (m_nodes t ! new_node)) then
               if p < length (m_mapping t) then
                 assign_particles new_node idx start len (i + 1)
                   (t\<lparr>m_nodes := (m_nodes t)[new_node := (m_nodes t ! new_node)
                                     \<lparr>particles := (particles (m_nodes t ! new_node))[i := p]\<rparr>],
                      m_mapping := (m_mapping t)[p := new_node]\<rparr>)
               else Inl (OutOfBounds Mapping, t)
             else Inl (OutOfBounds Particles, t)
           else Inl (OutOfBounds Nodes, t))
        else Inl (OutOfBounds Idx, t)
      else Inr t)"
  by pat_completeness auto
termination
  by (relation "measure (\<lambda>(new_node, idx, start, len, i, t). len - i)") auto

declare assign_particles.simps [simp del]

text \<open>
  The partition sweep of the internal case, \<^verbatim>\<open>for (i = 0; i < start_right; i++)\<close>: an item on
  the right is swapped with the one at \<open>start_right - 1\<close> in all three arrays and the same \<open>i\<close> is
  examined again (\<^verbatim>\<open>start_right--; i--\<close> followed by the loop's \<^verbatim>\<open>i++\<close>).
\<close>

definition swap :: "'a list \<Rightarrow> nat \<Rightarrow> nat \<Rightarrow> 'a list" where
  "swap xs i j = xs[i := xs ! j, j := xs ! i]"

function partition_sweep ::
  "('obb, 'pt, 'r) OBBEnv \<Rightarrow> 'obb \<Rightarrow> nat \<Rightarrow> 'obb list \<Rightarrow> nat list \<Rightarrow> 'pt list list \<Rightarrow> nat \<Rightarrow> nat
     \<Rightarrow> error + ('obb list \<times> nat list \<times> 'pt list list \<times> nat)" where
  "partition_sweep X my_obb start obbs idx ic i start_right =
     (if i < start_right then
        if start + i < length obbs then
          if proj_negative X (obbs ! (start + i)) my_obb
          then partition_sweep X my_obb start obbs idx ic (i + 1) start_right
          else if start + start_right - 1 < length obbs then
                 if start + i < length idx \<and> start + start_right - 1 < length idx then
                   if start + i < length ic \<and> start + start_right - 1 < length ic then
                     partition_sweep X my_obb start
                       (swap obbs (start + i) (start + start_right - 1))
                       (swap idx (start + i) (start + start_right - 1))
                       (swap ic (start + i) (start + start_right - 1))
                       i (start_right - 1)
                   else Inl (OutOfBounds Coords)
                 else Inl (OutOfBounds Idx)
               else Inl (OutOfBounds Obbs)
        else Inl (OutOfBounds Obbs)
      else Inr (obbs, idx, ic, start_right))"
  by pat_completeness auto
termination
  by (relation "measure (\<lambda>(X, my_obb, start, obbs, idx, ic, i, start_right). start_right - i)") auto

declare partition_sweep.simps [simp del]

definition make_leaf ::
  "('obb, 'pt, 'r) OBBEnv \<Rightarrow> nat \<Rightarrow> 'obb OBBTree \<Rightarrow> 'obb \<Rightarrow> nat \<Rightarrow> nat list \<Rightarrow> nat \<Rightarrow> nat
     \<Rightarrow> (error \<times> 'obb OBBTree) + ('obb OBBTree \<times> nat)" where
  "make_leaf X node_capacity t my_obb parent_idx idx start len =
     (case allocateNode X node_capacity t of
        Inl e \<Rightarrow> Inl e
      | Inr (t1, new_node) \<Rightarrow>
          (case write_node t1 new_node (\<lambda>n. n\<lparr>obb := my_obb, parent := parent_idx, num_particles := len\<rparr>) of
             Inl e \<Rightarrow> Inl e
           | Inr t2 \<Rightarrow>
               (case assign_particles new_node idx start len 0 t2 of
                  Inl e \<Rightarrow> Inl e
                | Inr t3 \<Rightarrow> Inr (t3, new_node))))"

text \<open>
  Lines 402 to 442: no sweep when \<open>len = 2\<close>, then the two guards
  \<^verbatim>\<open>if (start_right == len) start_right = len-1; if (start_right == 0) start_right = 1;\<close>.
\<close>

definition split_range ::
  "('obb, 'pt, 'r) OBBEnv \<Rightarrow> 'obb \<Rightarrow> nat \<Rightarrow> 'obb list \<Rightarrow> nat list \<Rightarrow> 'pt list list \<Rightarrow> nat
     \<Rightarrow> error + ('obb list \<times> nat list \<times> 'pt list list \<times> nat)" where
  "split_range X my_obb start obbs idx ic len =
     (case (if len = 2 then Inr (obbs, idx, ic, len)
            else partition_sweep X my_obb start obbs idx ic 0 len) of
        Inl e \<Rightarrow> Inl e
      | Inr (obbs1, idx1, ic1, swept) \<Rightarrow>
          (let start_right = (if swept = len then len - 1 else swept);
               start_right = (if start_right = 0 then 1 else start_right)
           in Inr (obbs1, idx1, ic1, start_right)))"

partial_function (option) buildNode ::
  "('obb, 'pt, 'r) OBBEnv \<Rightarrow> nat \<Rightarrow> 'r \<Rightarrow> 'obb OBBTree \<Rightarrow> 'obb list \<Rightarrow> nat list \<Rightarrow> 'pt list list
     \<Rightarrow> nat \<Rightarrow> nat \<Rightarrow> nat
     \<Rightarrow> ((error \<times> 'obb OBBTree) + ('obb OBBTree \<times> 'obb list \<times> nat list \<times> 'pt list list \<times> nat)) option" where
  "buildNode X node_capacity vertex_radius t obbs idx ic start len parent_idx =
     (if start < length obbs then
        if start + len \<le> length ic then
          (let my_obb = compute_obb X (concat (map (\<lambda>i. ic ! i) [start..<start + len])) vertex_radius in
           if len \<le> node_capacity then
             (case make_leaf X node_capacity t my_obb parent_idx idx start len of
                Inl e \<Rightarrow> Some (Inl e)
              | Inr (t1, new_node) \<Rightarrow> Some (Inr (t1, obbs, idx, ic, new_node)))
           else
             (case allocateNode X node_capacity t of
                Inl e \<Rightarrow> Some (Inl e)
              | Inr (t1, my_idx) \<Rightarrow>
                  (case split_range X my_obb start obbs idx ic len of
                     Inl e \<Rightarrow> Some (Inl (e, t1))
                   | Inr (obbs1, idx1, ic1, start_right) \<Rightarrow>
                       Option.bind
                         (buildNode X node_capacity vertex_radius t1 obbs1 idx1 ic1 start start_right my_idx)
                         (\<lambda>res. case res of
                            Inl e \<Rightarrow> Some (Inl e)
                          | Inr (t2, obbs2, idx2, ic2, new_left) \<Rightarrow>
                              Option.bind
                                (buildNode X node_capacity vertex_radius t2 obbs2 idx2 ic2
                                   (start + start_right) (len - start_right) my_idx)
                                (\<lambda>res. case res of
                                   Inl e \<Rightarrow> Some (Inl e)
                                 | Inr (t3, obbs3, idx3, ic3, new_right) \<Rightarrow>
                                     (case write_node t3 my_idx
                                             (\<lambda>n. n\<lparr>obb := my_obb, parent := parent_idx,
                                                     left := new_left, right := new_right\<rparr>) of
                                        Inl e \<Rightarrow> Some (Inl e)
                                      | Inr t4 \<Rightarrow> Some (Inr (t4, obbs3, idx3, ic3, my_idx))))))))
        else Some (Inl (OutOfBounds Coords, t))
      else Some (Inl (OutOfBounds Obbs, t)))"

text \<open>
  \<^verbatim>\<open>updateSkip\<close>. The source adds \<^verbatim>\<open>updateSkip(left_idx) + updateSkip(right_idx)\<close>, whose
  order of evaluation C++ leaves open; the model visits the left child first.
\<close>

partial_function (option) updateSkip ::
  "'obb OBBTree \<Rightarrow> nat \<Rightarrow> ((error \<times> 'obb OBBTree) + ('obb OBBTree \<times> nat)) option" where
  "updateSkip t idx =
     (if idx < length (m_nodes t) then
        if left (m_nodes t ! idx) = OBB_INVALID_NODE then Some (Inr (t, 1))
        else
          (let left_idx = left (m_nodes t ! idx);
               right_idx = right (m_nodes t ! idx)
           in Option.bind (updateSkip t left_idx)
                (\<lambda>res. case res of
                   Inl e \<Rightarrow> Some (Inl e)
                 | Inr (t1, skip_left) \<Rightarrow>
                     Option.bind (updateSkip t1 right_idx)
                       (\<lambda>res. case res of
                          Inl e \<Rightarrow> Some (Inl e)
                        | Inr (t2, skip_right) \<Rightarrow>
                            (let skip_val = (skip_left + skip_right) mod UINT_RANGE in
                             case write_node t2 idx (\<lambda>n. n\<lparr>skip := skip_val\<rparr>) of
                               Inl e \<Rightarrow> Some (Inl e)
                             | Inr t3 \<Rightarrow> Some (Inr (t3, (skip_val + 1) mod UINT_RANGE))))))
      else Some (Inl (OutOfBounds Nodes, t)))"

text \<open>
  \<^verbatim>\<open>buildTree(obbs, internal_coordinates, vertex_radius, N)\<close>. The arrays \<open>obbs\<close> and
  \<open>internal_coordinates\<close> are permuted in place and returned with the tree.
\<close>

definition buildTree ::
  "('obb, 'pt, 'r) OBBEnv \<Rightarrow> nat \<Rightarrow> 'obb OBBTree \<Rightarrow> 'obb list \<Rightarrow> 'pt list list \<Rightarrow> 'r \<Rightarrow> nat
     \<Rightarrow> ((error \<times> 'obb OBBTree) + ('obb OBBTree \<times> 'obb list \<times> 'pt list list)) option" where
  "buildTree X node_capacity t obbs internal_coordinates vertex_radius N =
     (let t0 = init t N;
          idx = [0..<N]
      in Option.bind
           (buildNode X node_capacity vertex_radius t0 obbs idx internal_coordinates 0 N OBB_INVALID_NODE)
           (\<lambda>res. case res of
              Inl e \<Rightarrow> Some (Inl e)
            | Inr (t1, obbs1, idx1, ic1, root) \<Rightarrow>
                Option.bind (updateSkip (t1\<lparr>m_root := root\<rparr>) root)
                  (\<lambda>res. case res of
                     Inl e \<Rightarrow> Some (Inl e)
                   | Inr (t2, subtree_size) \<Rightarrow> Some (Inr (t2, obbs1, ic1)))))"

text \<open>\<^verbatim>\<open>buildTree(obbs, N)\<close>: the point cloud of particle \<open>i\<close> is \<^verbatim>\<open>obbs[i].getCorners()\<close>.\<close>

definition buildTree_obbs ::
  "('obb, 'pt, 'r) OBBEnv \<Rightarrow> nat \<Rightarrow> 'obb OBBTree \<Rightarrow> 'obb list \<Rightarrow> nat
     \<Rightarrow> ((error \<times> 'obb OBBTree) + ('obb OBBTree \<times> 'obb list \<times> 'pt list list)) option" where
  "buildTree_obbs X node_capacity t obbs N =
     (if N \<le> length obbs
      then buildTree X node_capacity t obbs (map (\<lambda>i. getCorners X (obbs ! i)) [0..<N]) (zero_radius X) N
      else Some (Inl (OutOfBounds Obbs, init t N)))"

subsection \<open>The stackless \<^verbatim>\<open>query\<close>\<close>

partial_function (option) query_from ::
  "('obb, 'pt, 'r) OBBEnv \<Rightarrow> 'obb OBBTree \<Rightarrow> 'obb \<Rightarrow> nat \<Rightarrow> nat list \<Rightarrow> nat
     \<Rightarrow> (error + (nat list \<times> nat)) option" where
  "query_from X t q current_node_idx hits box_overlap_counts =
     (if current_node_idx < m_num_nodes t then
        if current_node_idx < length (m_nodes t) then
          (let current_node = m_nodes t ! current_node_idx;
               counts = (box_overlap_counts + 1) mod UINT_RANGE
           in if overlap X (obb current_node) q then
                if left current_node = OBB_INVALID_NODE then
                  if num_particles current_node \<le> length (particles current_node)
                  then query_from X t q ((current_node_idx + 1) mod UINT_RANGE)
                         (hits @ map (\<lambda>i. particles current_node ! i) [0..<num_particles current_node])
                         counts
                  else Some (Inl (OutOfBounds Particles))
                else query_from X t q ((current_node_idx + 1) mod UINT_RANGE) hits counts
              else query_from X t q
                     (((current_node_idx + skip current_node) mod UINT_RANGE + 1) mod UINT_RANGE)
                     hits counts)
        else Some (Inl (OutOfBounds Nodes))
      else Some (Inr (hits, box_overlap_counts)))"

definition query ::
  "('obb, 'pt, 'r) OBBEnv \<Rightarrow> 'obb OBBTree \<Rightarrow> nat list \<Rightarrow> 'obb \<Rightarrow> (error + (nat list \<times> nat)) option" where
  "query X t hits q = query_from X t q 0 hits 0"

subsection \<open>\<^verbatim>\<open>update\<close>\<close>

text \<open>
  Modelled from the spec: the header declares \<^verbatim>\<open>update(unsigned int idx, const OBB& obb)\<close> and
  never defines it. The specification says that it writes the new OBB into
  \<open>nodes[mapping[particle_idx]].obb\<close>, refits nothing, and fails with \<open>UnknownParticle\<close> when the
  particle was never placed or is out of range.
\<close>

definition update :: "'obb OBBTree \<Rightarrow> nat \<Rightarrow> 'obb \<Rightarrow> (error \<times> 'obb OBBTree) + 'obb OBBTree" where
  "update t particle_idx new_obb =
     (if particle_idx < length (m_mapping t) \<and> m_mapping t ! particle_idx \<noteq> OBB_INVALID_NODE
      then Inr (t\<lparr>m_nodes := (m_nodes t)[m_mapping t ! particle_idx :=
                    (m_nodes t ! (m_mapping t ! particle_idx))\<lparr>obb := new_obb\<rparr>]\<rparr>)
      else Inl (UnknownParticle, t))"

section \<open>Verification\<close>

subsection \<open>Arena invariant and the allocator\<close>

definition arena_ok :: "'obb OBBTree \<Rightarrow> bool" where
  "arena_ok t \<longleftrightarrow> length (m_nodes t) = m_node_capacity t \<and> m_node_capacity t < UINT_RANGE"

definition arena_inv :: "'obb OBBTree \<Rightarrow> bool" where
  "arena_inv t \<longleftrightarrow> arena_ok t \<and> m_num_nodes t \<le> m_node_capacity t"

lemma place_node_Inr:
  assumes "place_node X c t = Inr (t1, k)" "arena_ok t"
  shows "k = m_num_nodes t \<and> m_num_nodes t1 = Suc k \<and> arena_inv t1 \<and> k < length (m_nodes t1)
    \<and> m_nodes t1 = (m_nodes t)[k := OBBNode_default X c]
    \<and> m_mapping t1 = m_mapping t \<and> m_root t1 = m_root t"
  using assms
  by (auto simp: place_node_def arena_ok_def arena_inv_def split: if_splits)

lemma allocateNode_Inr:
  assumes "allocateNode X c t = Inr (t1, k)" "arena_inv t"
  shows "k = m_num_nodes t" "m_num_nodes t1 = Suc k" "arena_inv t1" "k < length (m_nodes t1)"
    "\<And>j. j < k \<Longrightarrow> m_nodes t1 ! j = m_nodes t ! j" "m_nodes t1 ! k = OBBNode_default X c"
    "m_mapping t1 = m_mapping t" "m_root t1 = m_root t"
proof -
  define grown where "grown = t\<lparr>m_nodes := take (m_num_nodes t) (m_nodes t)
       @ replicate ((if (m_node_capacity t * 2) mod UINT_RANGE = 0 then 16 else (m_node_capacity t * 2) mod UINT_RANGE) - m_num_nodes t) (OBBNode_default X c),
     m_node_capacity := (if (m_node_capacity t * 2) mod UINT_RANGE = 0 then 16 else (m_node_capacity t * 2) mod UINT_RANGE)\<rparr>"
  have R: "(16::nat) < UINT_RANGE" by (simp add: UINT_RANGE_def)
  have R0: "0 < UINT_RANGE" by (simp add: UINT_RANGE_def)
  show "k = m_num_nodes t" "m_num_nodes t1 = Suc k" "arena_inv t1" "k < length (m_nodes t1)"
    "\<And>j. j < k \<Longrightarrow> m_nodes t1 ! j = m_nodes t ! j" "m_nodes t1 ! k = OBBNode_default X c"
    "m_mapping t1 = m_mapping t" "m_root t1 = m_root t"
  proof -
    consider (grow) "m_num_nodes t \<ge> m_node_capacity t" "place_node X c grown = Inr (t1, k)"
        "m_num_nodes t \<le> length (m_nodes t)"
        "m_num_nodes t \<le> (if (m_node_capacity t * 2) mod UINT_RANGE = 0 then 16 else (m_node_capacity t * 2) mod UINT_RANGE)"
      | (stay) "m_num_nodes t < m_node_capacity t" "place_node X c t = Inr (t1, k)"
      using assms(1) unfolding allocateNode_def grown_def Let_def
      by (auto split: if_splits)
    then have "k = m_num_nodes t \<and> m_num_nodes t1 = Suc k \<and> arena_inv t1 \<and> k < length (m_nodes t1)
       \<and> (\<forall>j<k. m_nodes t1 ! j = m_nodes t ! j) \<and> m_nodes t1 ! k = OBBNode_default X c
       \<and> m_mapping t1 = m_mapping t \<and> m_root t1 = m_root t"
    proof cases
      case grow
      have ok: "arena_ok grown"
        using grow(3,4) R R0 by (auto simp: arena_ok_def grown_def)
      from place_node_Inr[OF grow(2) ok] show ?thesis
        using grow(3) by (auto simp: grown_def nth_append)
    next
      case stay
      from assms(2) have ok: "arena_ok t" by (simp add: arena_inv_def)
      from place_node_Inr[OF stay(2) ok] show ?thesis by auto
    qed
    then show "k = m_num_nodes t" "m_num_nodes t1 = Suc k" "arena_inv t1" "k < length (m_nodes t1)"
    "\<And>j. j < k \<Longrightarrow> m_nodes t1 ! j = m_nodes t ! j" "m_nodes t1 ! k = OBBNode_default X c"
    "m_mapping t1 = m_mapping t" "m_root t1 = m_root t" by auto
  qed
qed

lemma allocateNode_Inl:
  assumes "allocateNode X c t = Inl (e, t')" "arena_inv t"
  shows "t' = t \<and> (e = AllocationError \<or> e = OutOfBounds Nodes)"
proof -
  have R0: "0 < UINT_RANGE" by (simp add: UINT_RANGE_def)
  show ?thesis
    using assms R0 unfolding allocateNode_def place_node_def Let_def arena_inv_def arena_ok_def
    by (auto split: if_splits)
qed


definition slice :: "'a list \<Rightarrow> nat \<Rightarrow> nat \<Rightarrow> 'a list" where
  "slice xs a n = take n (drop a xs)"

definition perm_within :: "nat \<Rightarrow> nat \<Rightarrow> 'a list \<Rightarrow> 'a list \<Rightarrow> bool" where
  "perm_within start len xs ys \<longleftrightarrow>
     length ys = length xs \<and> mset ys = mset xs \<and>
     (\<forall>j<length xs. j < start \<or> start + len \<le> j \<longrightarrow> ys ! j = xs ! j)"

lemma perm_within_refl: "perm_within start len xs xs"
  by (simp add: perm_within_def)

lemma perm_within_trans:
  "perm_within start len xs ys \<Longrightarrow> perm_within start len ys zs \<Longrightarrow> perm_within start len xs zs"
  by (simp add: perm_within_def)

lemma perm_within_widen:
  "perm_within a n xs ys \<Longrightarrow> start \<le> a \<Longrightarrow> a + n \<le> start + len \<Longrightarrow> perm_within start len xs ys"
  by (auto simp: perm_within_def)

lemma perm_within_swap:
  assumes "start \<le> a" "a < start + len" "start \<le> b" "b < start + len" "a < length xs" "b < length xs"
  shows "perm_within start len xs (swap xs a b)"
  using assms by (auto simp: perm_within_def swap_def mset_swap)

lemma perm_within_distinct: "perm_within start len xs ys \<Longrightarrow> distinct ys = distinct xs"
  by (auto simp: perm_within_def dest: mset_eq_imp_distinct_iff)

lemma perm_within_set: "perm_within start len xs ys \<Longrightarrow> set ys = set xs"
  by (auto simp: perm_within_def dest: mset_eq_setD)

lemma slice_split:
  "start + len \<le> length xs \<Longrightarrow> xs = take start xs @ slice xs start len @ drop (start + len) xs"
proof -
  have "take len (drop start xs) @ drop (start + len) xs = drop start xs"
    using append_take_drop_id[of len "drop start xs"] by (simp add: add.commute)
  then have "take start xs @ slice xs start len @ drop (start + len) xs = take start xs @ drop start xs"
    by (simp add: slice_def)
  then show ?thesis by simp
qed

lemma perm_within_outside:
  assumes "perm_within start len xs ys"
  shows "take start ys = take start xs" "drop (start + len) ys = drop (start + len) xs"
  using assms by (auto simp: perm_within_def intro!: nth_equalityI)

lemma perm_within_slice_mset:
  assumes "perm_within start len xs ys" "start + len \<le> length xs"
  shows "mset (slice ys start len) = mset (slice xs start len)"
proof -
  have l: "start + len \<le> length ys" using assms by (simp add: perm_within_def)
  have "mset ys = mset (take start ys) + mset (slice ys start len) + mset (drop (start + len) ys)"
    by (subst slice_split[OF l]) (simp only: mset_append add.assoc)
  moreover have "mset xs = mset (take start xs) + mset (slice xs start len) + mset (drop (start + len) xs)"
    by (subst slice_split[OF assms(2)]) (simp only: mset_append add.assoc)
  moreover have "mset ys = mset xs" using assms(1) by (simp add: perm_within_def)
  ultimately show ?thesis
    using perm_within_outside[OF assms(1)] by simp
qed

lemma perm_within_slice_set:
  "perm_within start len xs ys \<Longrightarrow> start + len \<le> length xs \<Longrightarrow> set (slice ys start len) = set (slice xs start len)"
  using perm_within_slice_mset[of start len xs ys] mset_eq_setD by blast

lemma perm_within_slice_inner:
  assumes "perm_within a n xs ys" "b + m \<le> a \<or> a + n \<le> b"
  shows "slice ys b m = slice xs b m"
  using assms by (auto simp: perm_within_def slice_def intro!: nth_equalityI)

lemma slice_append: "slice xs a n @ slice xs (a + n) m = slice xs a (n + m)"
proof -
  have "drop (a + n) xs = drop n (drop a xs)" by (simp add: add.commute)
  then show ?thesis by (simp add: slice_def take_add)
qed

lemma slice_nth: "a + n \<le> length xs \<Longrightarrow> j < n \<Longrightarrow> slice xs a n ! j = xs ! (a + j)"
  by (simp add: slice_def)

lemma length_slice: "a + n \<le> length xs \<Longrightarrow> length (slice xs a n) = n"
  by (simp add: slice_def)

lemma set_slice_sub: "b \<ge> a \<Longrightarrow> b + m \<le> a + n \<Longrightarrow> set (slice xs b m) \<subseteq> set (slice xs a n)"
proof -
  assume ab: "b \<ge> a" and bm: "b + m \<le> a + n"
  define d where "d = b - a"
  have b: "b = a + d" using ab by (simp add: d_def)
  have n: "n = d + (m + (n - d - m))" using bm b by simp
  have "slice xs a n = slice xs a d @ slice xs (a + d) m @ slice xs (a + d + m) (n - d - m)"
    by (subst n) (simp only: slice_append[symmetric] add.assoc)
  then show ?thesis using b by auto
qed


lemma length_swap [simp]: "length (swap xs i j) = length xs"
  by (simp add: swap_def)

lemma partition_sweep_Inr:
  "partition_sweep X my start obbs idx ic i sr = Inr (obbs1, idx1, ic1, sr') \<Longrightarrow> sr \<le> len \<Longrightarrow>
   perm_within start len idx idx1 \<and> length obbs1 = length obbs \<and> length ic1 = length ic \<and> sr' \<le> sr"
proof (induction X my start obbs idx ic i sr rule: partition_sweep.induct)
  case (1 X my start obbs idx ic i sr)
  show ?case
  proof (cases "i < sr")
    case False
    with "1.prems" show ?thesis
      by (simp add: partition_sweep.simps[of X my start obbs idx ic i sr] perm_within_refl)
  next
    case True
    note lt = this
    show ?thesis
    proof (cases "proj_negative X (obbs ! (start + i)) my")
      case True
      with lt "1.prems" have "partition_sweep X my start obbs idx ic (i + 1) sr = Inr (obbs1, idx1, ic1, sr')"
        by (simp add: partition_sweep.simps[of X my start obbs idx ic i sr] split: if_splits)
      moreover have "start + i < length obbs" using lt "1.prems"
        by (simp add: partition_sweep.simps[of X my start obbs idx ic i sr] split: if_splits)
      ultimately show ?thesis using "1.IH"(1)[OF lt _ True] "1.prems"(2) by simp
    next
      case False
      from lt False "1.prems"(1) have b: "start + i < length obbs" "start + sr - 1 < length obbs"
        "start + i < length idx" "start + sr - 1 < length idx"
        "start + i < length ic" "start + sr - 1 < length ic"
        and rec: "partition_sweep X my start (swap obbs (start + i) (start + sr - 1))
                   (swap idx (start + i) (start + sr - 1)) (swap ic (start + i) (start + sr - 1)) i (sr - 1)
                  = Inr (obbs1, idx1, ic1, sr')"
        by (simp_all add: partition_sweep.simps[of X my start obbs idx ic i sr] split: if_splits)
      have "sr - 1 \<le> len" using "1.prems"(2) by simp
      from "1.IH"(2)[OF lt b(1) False b(2) _ _ rec this] b
      have ih: "perm_within start len (swap idx (start + i) (start + sr - 1)) idx1"
        "length obbs1 = length obbs" "length ic1 = length ic" "sr' \<le> sr - 1"
        by simp_all
      have "perm_within start len idx (swap idx (start + i) (start + sr - 1))"
        using lt "1.prems"(2) b by (intro perm_within_swap) simp_all
      with ih show ?thesis by (auto intro: perm_within_trans)
    qed
  qed
qed

lemma partition_sweep_in_bounds:
  "start + sr \<le> length obbs \<Longrightarrow> start + sr \<le> length idx \<Longrightarrow> start + sr \<le> length ic \<Longrightarrow>
   \<exists>r. partition_sweep X my start obbs idx ic i sr = Inr r"
proof (induction X my start obbs idx ic i sr rule: partition_sweep.induct)
  case (1 X my start obbs idx ic i sr)
  show ?case
  proof (cases "i < sr")
    case False
    then show ?thesis by (simp add: partition_sweep.simps[of X my start obbs idx ic i sr])
  next
    case True
    note lt = this
    then have b: "start + i < length obbs" "start + sr - 1 < length obbs"
        "start + i < length idx" "start + sr - 1 < length idx"
        "start + i < length ic" "start + sr - 1 < length ic"
      using "1.prems" by simp_all
    show ?thesis
    proof (cases "proj_negative X (obbs ! (start + i)) my")
      case True
      from "1.IH"(1)[OF lt b(1) True] "1.prems" lt b True show ?thesis
        by (simp add: partition_sweep.simps[of X my start obbs idx ic i sr])
    next
      case False
      have "\<exists>r. partition_sweep X my start (swap obbs (start + i) (start + sr - 1))
                   (swap idx (start + i) (start + sr - 1)) (swap ic (start + i) (start + sr - 1)) i (sr - 1) = Inr r"
        using "1.prems" lt by (intro "1.IH"(2)[OF lt b(1) False b(2)]) (simp_all add: b)
      with lt b False show ?thesis
        by (simp add: partition_sweep.simps[of X my start obbs idx ic i sr])
    qed
  qed
qed

lemma split_range_Inr:
  assumes "split_range X my start obbs idx ic len = Inr (obbs1, idx1, ic1, sr)"
  shows "perm_within start len idx idx1" "length obbs1 = length obbs" "length ic1 = length ic"
    "2 \<le> len \<Longrightarrow> 1 \<le> sr \<and> sr \<le> len - 1" "1 \<le> len \<Longrightarrow> 1 \<le> sr \<and> sr \<le> len"
proof -
  obtain sw where sw: "(if len = 2 then Inr (obbs, idx, ic, len)
            else partition_sweep X my start obbs idx ic 0 len) = Inr (obbs1, idx1, ic1, sw)"
    and sr: "sr = (if (if sw = len then len - 1 else sw) = 0 then 1 else (if sw = len then len - 1 else sw))"
    using assms unfolding split_range_def Let_def
    by (auto split: sum.splits)
  have "perm_within start len idx idx1 \<and> length obbs1 = length obbs \<and> length ic1 = length ic \<and> sw \<le> len"
  proof (cases "len = 2")
    case True
    with sw show ?thesis by (simp add: perm_within_refl)
  next
    case False
    with sw have "partition_sweep X my start obbs idx ic 0 len = Inr (obbs1, idx1, ic1, sw)" by simp
    from partition_sweep_Inr[OF this, of len] show ?thesis by simp
  qed
  then show "perm_within start len idx idx1" "length obbs1 = length obbs" "length ic1 = length ic"
    "2 \<le> len \<Longrightarrow> 1 \<le> sr \<and> sr \<le> len - 1" "1 \<le> len \<Longrightarrow> 1 \<le> sr \<and> sr \<le> len"
    using sr by (auto split: if_splits)
qed

lemma split_range_in_bounds:
  assumes "start + len \<le> length obbs" "start + len \<le> length idx" "start + len \<le> length ic"
  shows "\<exists>r. split_range X my start obbs idx ic len = Inr r"
  using partition_sweep_in_bounds[OF assms, of X my 0]
  by (auto simp: split_range_def Let_def split: sum.splits prod.splits)


lemma assign_particles_step:
  assumes "i < len" "assign_particles k idx start len i t = Inr t'"
  shows "start + i < length idx \<and> k < length (m_nodes t) \<and> i < length (particles (m_nodes t ! k))
     \<and> idx ! (start + i) < length (m_mapping t)
     \<and> assign_particles k idx start len (i + 1)
          (t\<lparr>m_nodes := (m_nodes t)[k := (m_nodes t ! k)
                  \<lparr>particles := (particles (m_nodes t ! k))[i := idx ! (start + i)]\<rparr>],
             m_mapping := (m_mapping t)[idx ! (start + i) := k]\<rparr>) = Inr t'"
  using assms
  by (simp add: assign_particles.simps[of k idx start len i t] Let_def split: if_splits)

lemma assign_particles_frame:
  "assign_particles k idx start len i t = Inr t' \<Longrightarrow>
   m_num_nodes t' = m_num_nodes t \<and> m_node_capacity t' = m_node_capacity t \<and> m_root t' = m_root t
   \<and> length (m_nodes t') = length (m_nodes t) \<and> length (m_mapping t') = length (m_mapping t)
   \<and> (\<forall>j. j \<noteq> k \<longrightarrow> m_nodes t' ! j = m_nodes t ! j)"
proof (induction k idx start len i t rule: assign_particles.induct)
  case (1 k idx start len i t)
  show ?case
  proof (cases "i < len")
    case False
    with "1.prems" show ?thesis by (simp add: assign_particles.simps[of k idx start len i t])
  next
    case True
    from assign_particles_step[OF True "1.prems"] "1.IH"[OF True _ refl] show ?thesis
      by simp
  qed
qed

lemma assign_particles_node:
  "assign_particles k idx start len i t = Inr t' \<Longrightarrow>
   \<exists>ps. m_nodes t' ! k = (m_nodes t ! k)\<lparr>particles := ps\<rparr>
     \<and> length ps = length (particles (m_nodes t ! k))
     \<and> (\<forall>j. i \<le> j \<and> j < len \<longrightarrow> j < length ps \<and> ps ! j = idx ! (start + j))
     \<and> (\<forall>j<i. ps ! j = particles (m_nodes t ! k) ! j)"
proof (induction k idx start len i t rule: assign_particles.induct)
  case (1 k idx start len i t)
  show ?case
  proof (cases "i < len")
    case False
    with "1.prems" have "t' = t" by (simp add: assign_particles.simps[of k idx start len i t])
    with False show ?thesis by (intro exI[of _ "particles (m_nodes t ! k)"]) simp
  next
    case True
    let ?t = "t\<lparr>m_nodes := (m_nodes t)[k := (m_nodes t ! k)
                  \<lparr>particles := (particles (m_nodes t ! k))[i := idx ! (start + i)]\<rparr>],
             m_mapping := (m_mapping t)[idx ! (start + i) := k]\<rparr>"
    from assign_particles_step[OF True "1.prems"]
    have b: "start + i < length idx" "k < length (m_nodes t)" "i < length (particles (m_nodes t ! k))"
      "idx ! (start + i) < length (m_mapping t)"
      and rec: "assign_particles k idx start len (i + 1) ?t = Inr t'" by simp_all
    from "1.IH"[OF True b(1) refl b(2) b(3) b(4) rec] obtain ps where
      ps: "m_nodes t' ! k = (m_nodes ?t ! k)\<lparr>particles := ps\<rparr>"
        "length ps = length (particles (m_nodes ?t ! k))"
        "\<forall>j. i + 1 \<le> j \<and> j < len \<longrightarrow> j < length ps \<and> ps ! j = idx ! (start + j)"
        "\<forall>j<i + 1. ps ! j = particles (m_nodes ?t ! k) ! j"
      by blast
    have n: "m_nodes ?t ! k = (m_nodes t ! k)\<lparr>particles := (particles (m_nodes t ! k))[i := idx ! (start + i)]\<rparr>"
      using b(2) by simp
    have 1: "m_nodes t' ! k = (m_nodes t ! k)\<lparr>particles := ps\<rparr>" using ps(1) n by simp
    have 2: "length ps = length (particles (m_nodes t ! k))" using ps(2) n by simp
    have 3: "\<forall>j. i \<le> j \<and> j < len \<longrightarrow> j < length ps \<and> ps ! j = idx ! (start + j)"
    proof (intro allI impI)
      fix j assume j: "i \<le> j \<and> j < len"
      show "j < length ps \<and> ps ! j = idx ! (start + j)"
      proof (cases "j = i")
        case True
        then show ?thesis using ps(4) n b(3) 2 by simp
      next
        case False
        with j have "i + 1 \<le> j \<and> j < len" by simp
        with ps(3) show ?thesis by blast
      qed
    qed
    have 4: "\<forall>j<i. ps ! j = particles (m_nodes t ! k) ! j"
      using ps(4) n by simp
    from 1 2 3 4 show ?thesis by blast
  qed
qed

lemma assign_particles_mapping:
  "assign_particles k idx start len i t = Inr t' \<Longrightarrow>
   (\<forall>j. i \<le> j \<and> j < len \<longrightarrow> idx ! (start + j) < length (m_mapping t) \<and> m_mapping t' ! (idx ! (start + j)) = k)
   \<and> (\<forall>p. (\<forall>j. i \<le> j \<and> j < len \<longrightarrow> idx ! (start + j) \<noteq> p) \<longrightarrow> m_mapping t' ! p = m_mapping t ! p)"
proof (induction k idx start len i t rule: assign_particles.induct)
  case (1 k idx start len i t)
  show ?case
  proof (cases "i < len")
    case False
    with "1.prems" have "t' = t" by (simp add: assign_particles.simps[of k idx start len i t])
    with False show ?thesis by simp
  next
    case True
    let ?t = "t\<lparr>m_nodes := (m_nodes t)[k := (m_nodes t ! k)
                  \<lparr>particles := (particles (m_nodes t ! k))[i := idx ! (start + i)]\<rparr>],
             m_mapping := (m_mapping t)[idx ! (start + i) := k]\<rparr>"
    from assign_particles_step[OF True "1.prems"]
    have b: "start + i < length idx" "k < length (m_nodes t)" "i < length (particles (m_nodes t ! k))"
      "idx ! (start + i) < length (m_mapping t)"
      and rec: "assign_particles k idx start len (i + 1) ?t = Inr t'" by simp_all
    from "1.IH"[OF True b(1) refl b(2) b(3) b(4) rec]
    have ih1: "\<And>j. i + 1 \<le> j \<Longrightarrow> j < len \<Longrightarrow> idx ! (start + j) < length (m_mapping t) \<and> m_mapping t' ! (idx ! (start + j)) = k"
      and ih2: "\<And>p. (\<forall>j. i + 1 \<le> j \<and> j < len \<longrightarrow> idx ! (start + j) \<noteq> p) \<Longrightarrow> m_mapping t' ! p = (m_mapping t)[idx ! (start + i) := k] ! p"
      by simp_all
    have A: "idx ! (start + j) < length (m_mapping t) \<and> m_mapping t' ! (idx ! (start + j)) = k"
      if j: "i \<le> j" "j < len" for j
    proof (cases "\<exists>j'. i + 1 \<le> j' \<and> j' < len \<and> idx ! (start + j') = idx ! (start + j)")
      case True
      then obtain j' where "i + 1 \<le> j'" "j' < len" "idx ! (start + j') = idx ! (start + j)" by blast
      with ih1[of j'] show ?thesis by simp
    next
      case False
      then have ne: "\<forall>j'. i + 1 \<le> j' \<and> j' < len \<longrightarrow> idx ! (start + j') \<noteq> idx ! (start + j)" by blast
      then have ji: "j = i" using j by (metis Suc_eq_plus1 Suc_leI le_neq_implies_less)
      from ih2[OF ne] ji b(4) show ?thesis by simp
    qed
    have B: "m_mapping t' ! p = m_mapping t ! p"
      if p: "\<forall>j. i \<le> j \<and> j < len \<longrightarrow> idx ! (start + j) \<noteq> p" for p
    proof -
      have "\<forall>j. i + 1 \<le> j \<and> j < len \<longrightarrow> idx ! (start + j) \<noteq> p" using p by simp
      from ih2[OF this] have "m_mapping t' ! p = (m_mapping t)[idx ! (start + i) := k] ! p" .
      moreover have "idx ! (start + i) \<noteq> p" using p True by simp
      ultimately show ?thesis by simp
    qed
    from A B show ?thesis by blast
  qed
qed

lemma assign_particles_in_bounds:
  "start + len \<le> length idx \<Longrightarrow> k < length (m_nodes t) \<Longrightarrow> len \<le> length (particles (m_nodes t ! k)) \<Longrightarrow>
   (\<forall>j<len. idx ! (start + j) < length (m_mapping t)) \<Longrightarrow>
   \<exists>t'. assign_particles k idx start len i t = Inr t'"
proof (induction k idx start len i t rule: assign_particles.induct)
  case (1 k idx start len i t)
  show ?case
  proof (cases "i < len")
    case False
    then show ?thesis by (simp add: assign_particles.simps[of k idx start len i t])
  next
    case True
    have b: "start + i < length idx" "k < length (m_nodes t)" "i < length (particles (m_nodes t ! k))"
      "idx ! (start + i) < length (m_mapping t)"
      using True "1.prems" by simp_all
    have "\<exists>t'. assign_particles k idx start len (i + 1)
          (t\<lparr>m_nodes := (m_nodes t)[k := (m_nodes t ! k)
                  \<lparr>particles := (particles (m_nodes t ! k))[i := idx ! (start + i)]\<rparr>],
             m_mapping := (m_mapping t)[idx ! (start + i) := k]\<rparr>) = Inr t'"
      using "1.prems" b by (intro "1.IH"[OF True b(1) refl b(2) b(3) b(4)]) simp_all
    with True b show ?thesis
      by (simp add: assign_particles.simps[of k idx start len i t] Let_def)
  qed
qed


lemma buildNode_leaf:
  "start < length obbs \<Longrightarrow> start + len \<le> length ic \<Longrightarrow> len \<le> node_capacity \<Longrightarrow>
   buildNode X node_capacity r t obbs idx ic start len pa =
     (case make_leaf X node_capacity t (compute_obb X (concat (map (\<lambda>i. ic ! i) [start..<start + len])) r) pa idx start len of
        Inl e \<Rightarrow> Some (Inl e)
      | Inr (t1, new_node) \<Rightarrow> Some (Inr (t1, obbs, idx, ic, new_node)))"
  by (subst buildNode.simps) simp

lemma buildNode_internal:
  "start < length obbs \<Longrightarrow> start + len \<le> length ic \<Longrightarrow> \<not> len \<le> node_capacity \<Longrightarrow>
   buildNode X node_capacity r t obbs idx ic start len pa =
     (case allocateNode X node_capacity t of
        Inl e \<Rightarrow> Some (Inl e)
      | Inr (t1, my_idx) \<Rightarrow>
          (case split_range X (compute_obb X (concat (map (\<lambda>i. ic ! i) [start..<start + len])) r) start obbs idx ic len of
             Inl e \<Rightarrow> Some (Inl (e, t1))
           | Inr (obbs1, idx1, ic1, start_right) \<Rightarrow>
               Option.bind
                 (buildNode X node_capacity r t1 obbs1 idx1 ic1 start start_right my_idx)
                 (\<lambda>res. case res of
                    Inl e \<Rightarrow> Some (Inl e)
                  | Inr (t2, obbs2, idx2, ic2, new_left) \<Rightarrow>
                      Option.bind
                        (buildNode X node_capacity r t2 obbs2 idx2 ic2
                           (start + start_right) (len - start_right) my_idx)
                        (\<lambda>res. case res of
                           Inl e \<Rightarrow> Some (Inl e)
                         | Inr (t3, obbs3, idx3, ic3, new_right) \<Rightarrow>
                             (case write_node t3 my_idx
                                     (\<lambda>n. n\<lparr>obb := compute_obb X (concat (map (\<lambda>i. ic ! i) [start..<start + len])) r, parent := pa,
                                             left := new_left, right := new_right\<rparr>) of
                                Inl e \<Rightarrow> Some (Inl e)
                              | Inr t4 \<Rightarrow> Some (Inr (t4, obbs3, idx3, ic3, my_idx)))))))"
  by (subst buildNode.simps) (simp add: Let_def)

lemma buildNode_oob_obbs:
  "\<not> start < length obbs \<Longrightarrow> buildNode X node_capacity r t obbs idx ic start len pa = Some (Inl (OutOfBounds Obbs, t))"
  by (subst buildNode.simps) simp

lemma buildNode_oob_coords:
  "start < length obbs \<Longrightarrow> \<not> start + len \<le> length ic \<Longrightarrow>
   buildNode X node_capacity r t obbs idx ic start len pa = Some (Inl (OutOfBounds Coords, t))"
  by (subst buildNode.simps) simp

definition fitted :: "('obb, 'pt, 'r) OBBEnv \<Rightarrow> 'r \<Rightarrow> 'pt list list \<Rightarrow> nat \<Rightarrow> nat \<Rightarrow> 'obb" where
  "fitted X r ic start len = compute_obb X (concat (map (\<lambda>i. ic ! i) [start..<start + len])) r"

lemma buildNode_induct [consumes 1, case_names oob_obbs oob_coords leaf alloc_fail split_fail left_fail right_fail write_fail internal]:
  assumes run: "buildNode X c r t obbs idx ic start len pa = Some y"
    and oob_obbs: "\<And>t obbs idx ic start len pa. \<not> start < length obbs \<Longrightarrow>
          P t obbs idx ic start len pa (Inl (OutOfBounds Obbs, t))"
    and oob_coords: "\<And>t obbs idx ic start len pa. start < length obbs \<Longrightarrow> \<not> start + len \<le> length ic \<Longrightarrow>
          P t obbs idx ic start len pa (Inl (OutOfBounds Coords, t))"
    and leaf: "\<And>t obbs idx ic start len pa. start < length obbs \<Longrightarrow> start + len \<le> length ic \<Longrightarrow> len \<le> c \<Longrightarrow>
          P t obbs idx ic start len pa
            (case make_leaf X c t (fitted X r ic start len) pa idx start len of
               Inl e \<Rightarrow> Inl e | Inr (t1, k) \<Rightarrow> Inr (t1, obbs, idx, ic, k))"
    and alloc_fail: "\<And>t obbs idx ic start len pa e. start < length obbs \<Longrightarrow> start + len \<le> length ic \<Longrightarrow> \<not> len \<le> c \<Longrightarrow>
          allocateNode X c t = Inl e \<Longrightarrow> P t obbs idx ic start len pa (Inl e)"
    and split_fail: "\<And>t obbs idx ic start len pa t1 k e. start < length obbs \<Longrightarrow> start + len \<le> length ic \<Longrightarrow> \<not> len \<le> c \<Longrightarrow>
          allocateNode X c t = Inr (t1, k) \<Longrightarrow>
          split_range X (fitted X r ic start len) start obbs idx ic len = Inl e \<Longrightarrow>
          P t obbs idx ic start len pa (Inl (e, t1))"
    and left_fail: "\<And>t obbs idx ic start len pa t1 k obbs1 idx1 ic1 sr e.
          start < length obbs \<Longrightarrow> start + len \<le> length ic \<Longrightarrow> \<not> len \<le> c \<Longrightarrow>
          allocateNode X c t = Inr (t1, k) \<Longrightarrow>
          split_range X (fitted X r ic start len) start obbs idx ic len = Inr (obbs1, idx1, ic1, sr) \<Longrightarrow>
          buildNode X c r t1 obbs1 idx1 ic1 start sr k = Some (Inl e) \<Longrightarrow>
          P t1 obbs1 idx1 ic1 start sr k (Inl e) \<Longrightarrow>
          P t obbs idx ic start len pa (Inl e)"
    and right_fail: "\<And>t obbs idx ic start len pa t1 k obbs1 idx1 ic1 sr t2 obbs2 idx2 ic2 nl e.
          start < length obbs \<Longrightarrow> start + len \<le> length ic \<Longrightarrow> \<not> len \<le> c \<Longrightarrow>
          allocateNode X c t = Inr (t1, k) \<Longrightarrow>
          split_range X (fitted X r ic start len) start obbs idx ic len = Inr (obbs1, idx1, ic1, sr) \<Longrightarrow>
          buildNode X c r t1 obbs1 idx1 ic1 start sr k = Some (Inr (t2, obbs2, idx2, ic2, nl)) \<Longrightarrow>
          P t1 obbs1 idx1 ic1 start sr k (Inr (t2, obbs2, idx2, ic2, nl)) \<Longrightarrow>
          buildNode X c r t2 obbs2 idx2 ic2 (start + sr) (len - sr) k = Some (Inl e) \<Longrightarrow>
          P t2 obbs2 idx2 ic2 (start + sr) (len - sr) k (Inl e) \<Longrightarrow>
          P t obbs idx ic start len pa (Inl e)"
    and write_fail: "\<And>t obbs idx ic start len pa t1 k obbs1 idx1 ic1 sr t2 obbs2 idx2 ic2 nl t3 obbs3 idx3 ic3 nr e.
          start < length obbs \<Longrightarrow> start + len \<le> length ic \<Longrightarrow> \<not> len \<le> c \<Longrightarrow>
          allocateNode X c t = Inr (t1, k) \<Longrightarrow>
          split_range X (fitted X r ic start len) start obbs idx ic len = Inr (obbs1, idx1, ic1, sr) \<Longrightarrow>
          buildNode X c r t1 obbs1 idx1 ic1 start sr k = Some (Inr (t2, obbs2, idx2, ic2, nl)) \<Longrightarrow>
          P t1 obbs1 idx1 ic1 start sr k (Inr (t2, obbs2, idx2, ic2, nl)) \<Longrightarrow>
          buildNode X c r t2 obbs2 idx2 ic2 (start + sr) (len - sr) k = Some (Inr (t3, obbs3, idx3, ic3, nr)) \<Longrightarrow>
          P t2 obbs2 idx2 ic2 (start + sr) (len - sr) k (Inr (t3, obbs3, idx3, ic3, nr)) \<Longrightarrow>
          write_node t3 k (\<lambda>n. n\<lparr>obb := fitted X r ic start len, parent := pa, left := nl, right := nr\<rparr>) = Inl e \<Longrightarrow>
          P t obbs idx ic start len pa (Inl e)"
    and internal: "\<And>t obbs idx ic start len pa t1 k obbs1 idx1 ic1 sr t2 obbs2 idx2 ic2 nl t3 obbs3 idx3 ic3 nr t4.
          start < length obbs \<Longrightarrow> start + len \<le> length ic \<Longrightarrow> \<not> len \<le> c \<Longrightarrow>
          allocateNode X c t = Inr (t1, k) \<Longrightarrow>
          split_range X (fitted X r ic start len) start obbs idx ic len = Inr (obbs1, idx1, ic1, sr) \<Longrightarrow>
          buildNode X c r t1 obbs1 idx1 ic1 start sr k = Some (Inr (t2, obbs2, idx2, ic2, nl)) \<Longrightarrow>
          P t1 obbs1 idx1 ic1 start sr k (Inr (t2, obbs2, idx2, ic2, nl)) \<Longrightarrow>
          buildNode X c r t2 obbs2 idx2 ic2 (start + sr) (len - sr) k = Some (Inr (t3, obbs3, idx3, ic3, nr)) \<Longrightarrow>
          P t2 obbs2 idx2 ic2 (start + sr) (len - sr) k (Inr (t3, obbs3, idx3, ic3, nr)) \<Longrightarrow>
          write_node t3 k (\<lambda>n. n\<lparr>obb := fitted X r ic start len, parent := pa, left := nl, right := nr\<rparr>) = Inr t4 \<Longrightarrow>
          P t obbs idx ic start len pa (Inr (t4, obbs3, idx3, ic3, k))"
  shows "P t obbs idx ic start len pa y"
proof -
  let ?Q = "\<lambda>X' c' r' t obbs idx ic start len pa y.
      X' = X \<and> c' = c \<and> r' = r \<longrightarrow>
      buildNode X c r t obbs idx ic start len pa = Some y \<and> P t obbs idx ic start len pa y"
  have "?Q X c r t obbs idx ic start len pa y"
  proof (rule buildNode.raw_induct[where P = ?Q, OF _ run], intro impI, elim conjE)
    fix f :: "('a, 'b, 'c) OBBEnv \<Rightarrow> nat \<Rightarrow> 'c \<Rightarrow> 'a OBBTree \<Rightarrow> 'a list \<Rightarrow> nat list \<Rightarrow> 'b list list \<Rightarrow> nat \<Rightarrow> nat \<Rightarrow> nat
        \<Rightarrow> ((error \<times> 'a OBBTree) + ('a OBBTree \<times> 'a list \<times> nat list \<times> 'b list list \<times> nat)) option"
    fix X' c' r' t obbs idx ic start len pa y
    assume IH0: "\<And>X' c' r' t obbs idx ic start len pa y. f X' c' r' t obbs idx ic start len pa = Some y \<Longrightarrow>
        ?Q X' c' r' t obbs idx ic start len pa y"
    assume body0: "(if start < length obbs then
        if start + len \<le> length ic then
          (let my_obb = compute_obb X' (concat (map (\<lambda>i. ic ! i) [start..<start + len])) r' in
           if len \<le> c' then
             (case make_leaf X' c' t my_obb pa idx start len of
                Inl e \<Rightarrow> Some (Inl e)
              | Inr (t1, new_node) \<Rightarrow> Some (Inr (t1, obbs, idx, ic, new_node)))
           else
             (case allocateNode X' c' t of
                Inl e \<Rightarrow> Some (Inl e)
              | Inr (t1, my_idx) \<Rightarrow>
                  (case split_range X' my_obb start obbs idx ic len of
                     Inl e \<Rightarrow> Some (Inl (e, t1))
                   | Inr (obbs1, idx1, ic1, start_right) \<Rightarrow>
                       Option.bind
                         (f X' c' r' t1 obbs1 idx1 ic1 start start_right my_idx)
                         (\<lambda>res. case res of
                            Inl e \<Rightarrow> Some (Inl e)
                          | Inr (t2, obbs2, idx2, ic2, new_left) \<Rightarrow>
                              Option.bind
                                (f X' c' r' t2 obbs2 idx2 ic2
                                   (start + start_right) (len - start_right) my_idx)
                                (\<lambda>res. case res of
                                   Inl e \<Rightarrow> Some (Inl e)
                                 | Inr (t3, obbs3, idx3, ic3, new_right) \<Rightarrow>
                                     (case write_node t3 my_idx
                                             (\<lambda>n. n\<lparr>obb := my_obb, parent := pa,
                                                     left := new_left, right := new_right\<rparr>) of
                                        Inl e \<Rightarrow> Some (Inl e)
                                      | Inr t4 \<Rightarrow> Some (Inr (t4, obbs3, idx3, ic3, my_idx))))))))
        else Some (Inl (OutOfBounds Coords, t))
      else Some (Inl (OutOfBounds Obbs, t))) = Some y"
    assume eqs: "X' = X" "c' = c" "r' = r"
    have IH: "buildNode X c r t obbs idx ic start len pa = Some y \<and> P t obbs idx ic start len pa y"
      if "f X c r t obbs idx ic start len pa = Some y" for t obbs idx ic start len pa y
      using IH0[OF that] by simp
    note body = body0[unfolded eqs Let_def, folded fitted_def]
    show "buildNode X c r t obbs idx ic start len pa = Some y \<and> P t obbs idx ic start len pa y"
    proof (cases "start < length obbs")
      case False
      with body have "y = Inl (OutOfBounds Obbs, t)" by simp
      with False show ?thesis by (simp add: buildNode_oob_obbs oob_obbs)
    next
      case a: True
      show ?thesis
      proof (cases "start + len \<le> length ic")
        case False
        with a body have "y = Inl (OutOfBounds Coords, t)" by simp
        with a False show ?thesis by (simp add: buildNode_oob_coords oob_coords)
      next
        case b: True
        show ?thesis
        proof (cases "len \<le> c")
          case True
          with a b body have y: "(case make_leaf X c t (fitted X r ic start len) pa idx start len of
               Inl e \<Rightarrow> Some (Inl e) | Inr (t1, k) \<Rightarrow> Some (Inr (t1, obbs, idx, ic, k))) = Some y" by simp
          then have y': "y = (case make_leaf X c t (fitted X r ic start len) pa idx start len of
               Inl e \<Rightarrow> Inl e | Inr (t1, k) \<Rightarrow> Inr (t1, obbs, idx, ic, k))"
            by (auto split: sum.splits)
          have "buildNode X c r t obbs idx ic start len pa = Some y"
            using y by (simp add: buildNode_leaf[OF a b True] fitted_def)
          then show ?thesis using leaf[OF a b True, where t=t and pa=pa and idx=idx] y' by simp
        next
          case nl: False
          note unf = buildNode_internal[OF a b nl, where X=X and r=r and t=t and idx=idx and pa=pa, folded fitted_def]
          from a b nl body have body1: "(case allocateNode X c t of
                Inl e \<Rightarrow> Some (Inl e)
              | Inr (t1, my_idx) \<Rightarrow>
                  (case split_range X (fitted X r ic start len) start obbs idx ic len of
                     Inl e \<Rightarrow> Some (Inl (e, t1))
                   | Inr (obbs1, idx1, ic1, start_right) \<Rightarrow>
                       Option.bind
                         (f X c r t1 obbs1 idx1 ic1 start start_right my_idx)
                         (\<lambda>res. case res of
                            Inl e \<Rightarrow> Some (Inl e)
                          | Inr (t2, obbs2, idx2, ic2, new_left) \<Rightarrow>
                              Option.bind
                                (f X c r t2 obbs2 idx2 ic2
                                   (start + start_right) (len - start_right) my_idx)
                                (\<lambda>res. case res of
                                   Inl e \<Rightarrow> Some (Inl e)
                                 | Inr (t3, obbs3, idx3, ic3, new_right) \<Rightarrow>
                                     (case write_node t3 my_idx
                                             (\<lambda>n. n\<lparr>obb := fitted X r ic start len, parent := pa,
                                                     left := new_left, right := new_right\<rparr>) of
                                        Inl e \<Rightarrow> Some (Inl e)
                                      | Inr t4 \<Rightarrow> Some (Inr (t4, obbs3, idx3, ic3, my_idx))))))) = Some y"
            by simp
          show ?thesis
          proof (cases "allocateNode X c t")
            case (Inl e)
            with body1 have "y = Inl e" by simp
            with Inl show ?thesis using alloc_fail[OF a b nl Inl, where idx=idx and pa=pa] by (simp add: unf)
          next
            case (Inr p)
            obtain t1 k where p: "p = (t1, k)" by (cases p)
            note al = Inr[unfolded p]
            show ?thesis
            proof (cases "split_range X (fitted X r ic start len) start obbs idx ic len")
              case (Inl e)
              with body1 al have "y = Inl (e, t1)" by simp
              with Inl al show ?thesis using split_fail[OF a b nl al Inl, where pa=pa] by (simp add: unf)
            next
              case (Inr q)
              obtain obbs1 idx1 ic1 sr where q: "q = (obbs1, idx1, ic1, sr)" by (cases q)
              note sp = Inr[unfolded q]
              from body1 al sp obtain res1 where
                f1: "f X c r t1 obbs1 idx1 ic1 start sr k = Some res1"
                and body2: "(case res1 of
                            Inl e \<Rightarrow> Some (Inl e)
                          | Inr (t2, obbs2, idx2, ic2, new_left) \<Rightarrow>
                              Option.bind
                                (f X c r t2 obbs2 idx2 ic2 (start + sr) (len - sr) k)
                                (\<lambda>res. case res of
                                   Inl e \<Rightarrow> Some (Inl e)
                                 | Inr (t3, obbs3, idx3, ic3, new_right) \<Rightarrow>
                                     (case write_node t3 k
                                             (\<lambda>n. n\<lparr>obb := fitted X r ic start len, parent := pa,
                                                     left := new_left, right := new_right\<rparr>) of
                                        Inl e \<Rightarrow> Some (Inl e)
                                      | Inr t4 \<Rightarrow> Some (Inr (t4, obbs3, idx3, ic3, k))))) = Some y"
                by (auto simp: bind_eq_Some_conv)
              from IH[OF f1] have b1: "buildNode X c r t1 obbs1 idx1 ic1 start sr k = Some res1"
                and p1: "P t1 obbs1 idx1 ic1 start sr k res1" by simp_all
              show ?thesis
              proof (cases res1)
                case (Inl e)
                with body2 have "y = Inl e" by simp
                with Inl al sp b1 show ?thesis
                  using left_fail[OF a b nl al sp b1[unfolded Inl] p1[unfolded Inl], where pa=pa] by (simp add: unf)
              next
                case (Inr u)
                obtain t2 obbs2 idx2 ic2 nl' where u: "u = (t2, obbs2, idx2, ic2, nl')" by (cases u)
                note r1 = Inr[unfolded u]
                from body2 r1 obtain res2 where
                  f2: "f X c r t2 obbs2 idx2 ic2 (start + sr) (len - sr) k = Some res2"
                  and body3: "(case res2 of
                                   Inl e \<Rightarrow> Some (Inl e)
                                 | Inr (t3, obbs3, idx3, ic3, new_right) \<Rightarrow>
                                     (case write_node t3 k
                                             (\<lambda>n. n\<lparr>obb := fitted X r ic start len, parent := pa,
                                                     left := nl', right := new_right\<rparr>) of
                                        Inl e \<Rightarrow> Some (Inl e)
                                      | Inr t4 \<Rightarrow> Some (Inr (t4, obbs3, idx3, ic3, k)))) = Some y"
                  by (auto simp: bind_eq_Some_conv)
                from IH[OF f2] have b2: "buildNode X c r t2 obbs2 idx2 ic2 (start + sr) (len - sr) k = Some res2"
                  and p2: "P t2 obbs2 idx2 ic2 (start + sr) (len - sr) k res2" by simp_all
                show ?thesis
                proof (cases res2)
                  case (Inl e)
                  with body3 have "y = Inl e" by simp
                  with Inl al sp b1 b2 r1 show ?thesis
                    using right_fail[OF a b nl al sp b1[unfolded r1] p1[unfolded r1] b2[unfolded Inl] p2[unfolded Inl], where pa=pa]
                    by (simp add: unf)
                next
                  case (Inr v)
                  obtain t3 obbs3 idx3 ic3 nr where v: "v = (t3, obbs3, idx3, ic3, nr)" by (cases v)
                  note r2 = Inr[unfolded v]
                  show ?thesis
                  proof (cases "write_node t3 k (\<lambda>n. n\<lparr>obb := fitted X r ic start len, parent := pa, left := nl', right := nr\<rparr>)")
                    case (Inl e)
                    with body3 r2 have "y = Inl e" by simp
                    with Inl al sp b1 b2 r1 r2 show ?thesis
                      using write_fail[OF a b nl al sp b1[unfolded r1] p1[unfolded r1] b2[unfolded r2] p2[unfolded r2] Inl]
                      by (simp add: unf)
                  next
                    case (Inr t4)
                    with body3 r2 have "y = Inr (t4, obbs3, idx3, ic3, k)" by simp
                    with Inr al sp b1 b2 r1 r2 show ?thesis
                      using internal[OF a b nl al sp b1[unfolded r1] p1[unfolded r1] b2[unfolded r2] p2[unfolded r2] Inr]
                      by (simp add: unf)
                  qed
                qed
              qed
            qed
          qed
        qed
      qed
    qed
  qed
  then show ?thesis by simp
qed


datatype 'obb subtree = Leaf 'obb "nat list" | Internal 'obb "'obb subtree" "'obb subtree"

fun nodes_of :: "'obb subtree \<Rightarrow> nat" where
  "nodes_of (Leaf ob ps) = 1"
| "nodes_of (Internal ob l r) = 1 + nodes_of l + nodes_of r"

fun particles_of :: "'obb subtree \<Rightarrow> nat list" where
  "particles_of (Leaf ob ps) = ps"
| "particles_of (Internal ob l r) = particles_of l @ particles_of r"

fun repr :: "bool \<Rightarrow> 'obb OBBNode list \<Rightarrow> nat list \<Rightarrow> nat \<Rightarrow> nat \<Rightarrow> 'obb subtree \<Rightarrow> bool" where
  "repr sk ns mp k pa (Leaf ob ps) \<longleftrightarrow>
     k < length ns \<and> left (ns ! k) = OBB_INVALID_NODE \<and> obb (ns ! k) = ob \<and> parent (ns ! k) = pa
     \<and> skip (ns ! k) = 0 \<and> num_particles (ns ! k) = length ps
     \<and> length ps \<le> length (particles (ns ! k)) \<and> take (length ps) (particles (ns ! k)) = ps
     \<and> (\<forall>p\<in>set ps. p < length mp \<and> mp ! p = k)"
| "repr sk ns mp k pa (Internal ob l r) \<longleftrightarrow>
     k < length ns \<and> left (ns ! k) = k + 1 \<and> k + 1 < OBB_INVALID_NODE
     \<and> right (ns ! k) = k + 1 + nodes_of l \<and> obb (ns ! k) = ob \<and> parent (ns ! k) = pa
     \<and> skip (ns ! k) = (if sk then nodes_of l + nodes_of r else 0)
     \<and> repr sk ns mp (k + 1) k l \<and> repr sk ns mp (k + 1 + nodes_of l) k r"

lemma nodes_of_pos: "0 < nodes_of tr"
  by (cases tr) simp_all

lemma repr_bound: "repr sk ns mp k pa tr \<Longrightarrow> k + nodes_of tr \<le> length ns"
proof (induction tr arbitrary: k pa)
  case (Leaf ob ps)
  then show ?case by simp
next
  case (Internal ob l r)
  from Internal.prems have "repr sk ns mp (k + 1 + nodes_of l) k r" by simp
  from Internal.IH(2)[OF this] show ?case by simp
qed

lemma repr_frame:
  "repr sk ns mp k pa tr \<Longrightarrow> (\<forall>j. k \<le> j \<and> j < k + nodes_of tr \<longrightarrow> ns' ! j = ns ! j) \<Longrightarrow>
   k + nodes_of tr \<le> length ns' \<Longrightarrow> (\<forall>p\<in>set (particles_of tr). mp' ! p = mp ! p) \<Longrightarrow>
   length mp' = length mp \<Longrightarrow> repr sk ns' mp' k pa tr"
proof (induction tr arbitrary: k pa)
  case (Leaf ob ps)
  then show ?case by simp
next
  case (Internal ob l r)
  from Internal.prems(1) have rl: "repr sk ns mp (k + 1) k l" and rr: "repr sk ns mp (k + 1 + nodes_of l) k r"
    by simp_all
  have "repr sk ns' mp' (k + 1) k l"
    using Internal.prems by (intro Internal.IH(1)[OF rl]) auto
  moreover have "repr sk ns' mp' (k + 1 + nodes_of l) k r"
    using Internal.prems by (intro Internal.IH(2)[OF rr]) auto
  ultimately show ?case using Internal.prems by simp
qed

lemma set_slice:
  "a + n \<le> length xs \<Longrightarrow> set (slice xs a n) = {xs ! (a + j) | j. j < n}"
proof -
  assume b: "a + n \<le> length xs"
  have "slice xs a n = map (\<lambda>j. xs ! (a + j)) [0..<n]"
    using b by (intro nth_equalityI) (simp_all add: length_slice slice_nth)
  then show ?thesis by auto
qed

lemma make_leaf_Inr:
  assumes "make_leaf X c t ob pa idx start len = Inr (t', k)" "arena_inv t" "start + len \<le> length idx"
  shows "k = m_num_nodes t" "m_num_nodes t' = Suc k" "arena_inv t'"
    "repr sk (m_nodes t') (m_mapping t') k pa (Leaf ob (slice idx start len))"
    "\<And>j. j < k \<Longrightarrow> m_nodes t' ! j = m_nodes t ! j"
    "length (m_mapping t') = length (m_mapping t)"
    "\<And>p. p \<notin> set (slice idx start len) \<Longrightarrow> m_mapping t' ! p = m_mapping t ! p"
    "m_root t' = m_root t"
proof -
  from assms(1) obtain t1 t2 where
    al: "allocateNode X c t = Inr (t1, k)"
    and wr: "write_node t1 k (\<lambda>n. n\<lparr>obb := ob, parent := pa, num_particles := len\<rparr>) = Inr t2"
    and asg: "assign_particles k idx start len 0 t2 = Inr t'"
    unfolding make_leaf_def by (auto split: sum.splits)
  note A = allocateNode_Inr[OF al assms(2)]
  from wr A(4) have t2: "t2 = t1\<lparr>m_nodes := (m_nodes t1)[k := (m_nodes t1 ! k)\<lparr>obb := ob, parent := pa, num_particles := len\<rparr>]\<rparr>"
    by (simp add: write_node_def)
  note F = assign_particles_frame[OF asg]
  from assign_particles_node[OF asg] obtain ps where
    ps: "m_nodes t' ! k = (m_nodes t2 ! k)\<lparr>particles := ps\<rparr>"
      "length ps = length (particles (m_nodes t2 ! k))"
      "\<forall>j. j < len \<longrightarrow> j < length ps \<and> ps ! j = idx ! (start + j)"
    by auto
  note M = assign_particles_mapping[OF asg]
  show "k = m_num_nodes t" by (rule A(1))
  show "m_num_nodes t' = Suc k" using F A(2) t2 by simp
  show "arena_inv t'" using F A(3) t2 by (simp add: arena_inv_def arena_ok_def)
  show "\<And>j. j < k \<Longrightarrow> m_nodes t' ! j = m_nodes t ! j" using F A(5) t2 by simp
  show "length (m_mapping t') = length (m_mapping t)" using F A(7) t2 by simp
  show "m_root t' = m_root t" using F A(8) t2 by simp
  have sl: "set (slice idx start len) = {idx ! (start + j) | j. j < len}"
    by (rule set_slice[OF assms(3)])
  show "m_mapping t' ! p = m_mapping t ! p" if "p \<notin> set (slice idx start len)" for p
  proof -
    from that sl have "\<forall>j. 0 \<le> j \<and> j < len \<longrightarrow> idx ! (start + j) \<noteq> p" by auto
    with M have "m_mapping t' ! p = m_mapping t2 ! p" by blast
    then show ?thesis using A(7) t2 by simp
  qed
  have len_ps: "len \<le> length ps"
  proof (cases len)
    case 0 then show ?thesis by simp
  next
    case (Suc n)
    with ps(3) have "n < length ps" by simp
    with Suc show ?thesis by simp
  qed
  have tk: "take len ps = slice idx start len"
    using ps(3) len_ps assms(3) by (intro nth_equalityI) (simp_all add: length_slice slice_nth)
  have node: "m_nodes t' ! k = (OBBNode_default X c)\<lparr>obb := ob, parent := pa, num_particles := len, particles := ps\<rparr>"
    using ps(1) t2 A(4,6) by simp
  have mp: "\<forall>p\<in>set (slice idx start len). p < length (m_mapping t') \<and> m_mapping t' ! p = k"
    using M F sl by auto
  have kl: "k < length (m_nodes t')" using F A(4) t2 by simp
  show "repr sk (m_nodes t') (m_mapping t') k pa (Leaf ob (slice idx start len))"
    using node kl len_ps tk mp assms(3)
    by (simp add: OBBNode_default_def length_slice)
qed


lemma slices_disjoint:
  assumes "distinct xs" "a + n \<le> b" "b + m \<le> length xs"
  shows "set (slice xs a n) \<inter> set (slice xs b m) = {}"
proof -
  have 1: "set (slice xs a n) = {xs ! (a + j) | j. j < n}" using assms by (intro set_slice) simp
  have 2: "set (slice xs b m) = {xs ! (b + j) | j. j < m}" using assms by (intro set_slice) simp
  show ?thesis unfolding 1 2 using assms by (auto simp: nth_eq_iff_index_eq)
qed

definition build_post ::
  "'obb OBBTree \<Rightarrow> 'obb list \<Rightarrow> nat list \<Rightarrow> 'pt list list \<Rightarrow> nat \<Rightarrow> nat \<Rightarrow> nat
     \<Rightarrow> 'obb OBBTree \<Rightarrow> 'obb list \<Rightarrow> nat list \<Rightarrow> 'pt list list \<Rightarrow> nat \<Rightarrow> bool" where
  "build_post t obbs idx ic start len pa t' obbs' idx' ic' k \<longleftrightarrow>
     k = m_num_nodes t \<and> arena_inv t' \<and> perm_within start len idx idx'
     \<and> length obbs' = length obbs \<and> length ic' = length ic
     \<and> length (m_mapping t') = length (m_mapping t) \<and> m_root t' = m_root t
     \<and> (\<forall>j<k. m_nodes t' ! j = m_nodes t ! j)
     \<and> (\<forall>p. p \<notin> set (slice idx start len) \<longrightarrow> m_mapping t' ! p = m_mapping t ! p)
     \<and> (\<exists>tr. m_num_nodes t' = k + nodes_of tr \<and> repr False (m_nodes t') (m_mapping t') k pa tr
            \<and> particles_of tr = slice idx' start len)"

lemma build_post_internal:
  assumes inv: "arena_inv t" and bound: "start + len \<le> length idx" and dist: "distinct idx"
    and len: "1 \<le> len"
    and al: "allocateNode X c t = Inr (t1, k)"
    and sp: "split_range X ob start obbs idx ic len = Inr (obbs1, idx1, ic1, sr)"
    and p1: "build_post t1 obbs1 idx1 ic1 start sr k t2 obbs2 idx2 ic2 nl"
    and p2: "build_post t2 obbs2 idx2 ic2 (start + sr) (len - sr) k t3 obbs3 idx3 ic3 nr"
    and wr: "write_node t3 k (\<lambda>n. n\<lparr>obb := ob, parent := pa, left := nl, right := nr\<rparr>) = Inr t4"
  shows "build_post t obbs idx ic start len pa t4 obbs3 idx3 ic3 k"
proof -
  note A = allocateNode_Inr[OF al inv]
  note S = split_range_Inr[OF sp]
  from S(5)[OF len] have sr: "1 \<le> sr" "sr \<le> len" by simp_all
  have l1: "length idx1 = length idx" using S(1) by (simp add: perm_within_def)
  from p1 obtain l where
    nl: "nl = m_num_nodes t1" and inv2: "arena_inv t2" and pw1: "perm_within start sr idx1 idx2"
    and lo2: "length obbs2 = length obbs1" and lc2: "length ic2 = length ic1"
    and lm2: "length (m_mapping t2) = length (m_mapping t1)" and rt2: "m_root t2 = m_root t1"
    and pre2: "\<forall>j<nl. m_nodes t2 ! j = m_nodes t1 ! j"
    and mp2: "\<forall>p. p \<notin> set (slice idx1 start sr) \<longrightarrow> m_mapping t2 ! p = m_mapping t1 ! p"
    and n2: "m_num_nodes t2 = nl + nodes_of l" and rl: "repr False (m_nodes t2) (m_mapping t2) nl k l"
    and pl: "particles_of l = slice idx2 start sr"
    unfolding build_post_def by blast
  from p2 obtain r where
    nr: "nr = m_num_nodes t2" and inv3: "arena_inv t3" and pw2: "perm_within (start + sr) (len - sr) idx2 idx3"
    and lo3: "length obbs3 = length obbs2" and lc3: "length ic3 = length ic2"
    and lm3: "length (m_mapping t3) = length (m_mapping t2)" and rt3: "m_root t3 = m_root t2"
    and pre3: "\<forall>j<nr. m_nodes t3 ! j = m_nodes t2 ! j"
    and mp3: "\<forall>p. p \<notin> set (slice idx2 (start + sr) (len - sr)) \<longrightarrow> m_mapping t3 ! p = m_mapping t2 ! p"
    and n3: "m_num_nodes t3 = nr + nodes_of r" and rr: "repr False (m_nodes t3) (m_mapping t3) nr k r"
    and pr: "particles_of r = slice idx3 (start + sr) (len - sr)"
    unfolding build_post_def by blast
  have l2: "length idx2 = length idx" using pw1 l1 by (simp add: perm_within_def)
  have l3: "length idx3 = length idx" using pw2 l2 by (simp add: perm_within_def)
  have d1: "distinct idx1" using perm_within_distinct[OF S(1)] dist by simp
  have d2: "distinct idx2" using perm_within_distinct[OF pw1] d1 by simp
  have nlk: "nl = k + 1" using nl A(2) by simp
  have nrk: "nr = k + 1 + nodes_of l" using nr n2 nlk by simp
  have kl3: "k < length (m_nodes t3)"
    using repr_bound[OF rr] nrk by simp
  from wr kl3 have t4: "t4 = t3\<lparr>m_nodes := (m_nodes t3)[k := (m_nodes t3 ! k)\<lparr>obb := ob, parent := pa, left := nl, right := nr\<rparr>]\<rparr>"
    by (simp add: write_node_def)
  have nodek: "m_nodes t3 ! k = OBBNode_default X c"
    using pre3 pre2 nrk nlk A(6) by simp
  have pw: "perm_within start len idx idx3"
  proof -
    have "perm_within start len idx1 idx2" using pw1 sr by (intro perm_within_widen[OF pw1]) simp_all
    moreover have "perm_within start len idx2 idx3" using sr by (intro perm_within_widen[OF pw2]) simp_all
    ultimately show ?thesis using S(1) by (blast intro: perm_within_trans)
  qed
  have set1: "set (slice idx1 start len) = set (slice idx start len)"
    using perm_within_slice_set[OF S(1) bound] .
  have set2: "set (slice idx2 start sr) = set (slice idx1 start sr)"
    using perm_within_slice_set[OF pw1] sr bound l1 by simp
  have set2': "set (slice idx2 start len) = set (slice idx1 start len)"
    using perm_within_slice_set[OF perm_within_widen[OF pw1, of start len]] sr bound l1 by simp
  have sub1: "set (slice idx1 start sr) \<subseteq> set (slice idx1 start len)"
    using sr by (intro set_slice_sub) simp_all
  have sub2: "set (slice idx2 (start + sr) (len - sr)) \<subseteq> set (slice idx2 start len)"
    using sr by (intro set_slice_sub) simp_all
  have mp: "\<forall>p. p \<notin> set (slice idx start len) \<longrightarrow> m_mapping t4 ! p = m_mapping t ! p"
  proof (intro allI impI)
    fix p assume p: "p \<notin> set (slice idx start len)"
    then have "p \<notin> set (slice idx1 start sr)" "p \<notin> set (slice idx2 (start + sr) (len - sr))"
      using set1 set2' sub1 sub2 by auto
    then show "m_mapping t4 ! p = m_mapping t ! p" using mp2 mp3 A(7) t4 by simp
  qed
  have same_l: "slice idx3 start sr = slice idx2 start sr"
    using pw2 by (intro perm_within_slice_inner[OF pw2]) simp
  have parts: "particles_of (Internal ob l r) = slice idx3 start len"
  proof -
    have "slice idx3 start sr @ slice idx3 (start + sr) (len - sr) = slice idx3 start (sr + (len - sr))"
      by (rule slice_append)
    then show ?thesis using pl pr same_l sr by simp
  qed
  have disj: "set (slice idx2 start sr) \<inter> set (slice idx2 (start + sr) (len - sr)) = {}"
    using d2 sr bound l2 by (intro slices_disjoint) simp_all
  have rl3: "repr False (m_nodes t3) (m_mapping t3) nl k l"
  proof (rule repr_frame[OF rl])
    show "\<forall>j. nl \<le> j \<and> j < nl + nodes_of l \<longrightarrow> m_nodes t3 ! j = m_nodes t2 ! j"
      using pre3 nrk nlk by simp
    show "nl + nodes_of l \<le> length (m_nodes t3)" using repr_bound[OF rr] nrk nlk by simp
    show "\<forall>p\<in>set (particles_of l). m_mapping t3 ! p = m_mapping t2 ! p"
      using mp3 disj pl by auto
    show "length (m_mapping t3) = length (m_mapping t2)" by (rule lm3)
  qed
  have rl4: "repr False (m_nodes t4) (m_mapping t4) (k + 1) k l"
    using repr_bound[OF rl3] nlk
    by (intro repr_frame[OF rl3[unfolded nlk]]) (simp_all add: t4)
  have rr4: "repr False (m_nodes t4) (m_mapping t4) (k + 1 + nodes_of l) k r"
    using repr_bound[OF rr] nrk
    by (intro repr_frame[OF rr[unfolded nrk]]) (simp_all add: t4)
  have num4: "m_num_nodes t4 = k + nodes_of (Internal ob l r)"
    using n3 nrk t4 by simp
  have kinv: "k + 1 < OBB_INVALID_NODE"
  proof -
    have "k + 1 < m_num_nodes t3" using n3 nrk nodes_of_pos[of l] nodes_of_pos[of r] by simp
    moreover have "m_num_nodes t3 < UINT_RANGE" using inv3 by (simp add: arena_inv_def arena_ok_def)
    ultimately show ?thesis by (simp add: UINT_RANGE_def OBB_INVALID_NODE_def)
  qed
  have rep: "repr False (m_nodes t4) (m_mapping t4) k pa (Internal ob l r)"
    using rl4 rr4 kl3 nodek nlk nrk kinv
    by (simp add: t4 OBBNode_default_def)
  have inv4: "arena_inv t4" using inv3 by (simp add: t4 arena_inv_def arena_ok_def)
  have pre4: "\<forall>j<k. m_nodes t4 ! j = m_nodes t ! j"
    using pre3 pre2 A(5) nrk nlk by (simp add: t4)
  have ex: "\<exists>tr. m_num_nodes t4 = k + nodes_of tr \<and> repr False (m_nodes t4) (m_mapping t4) k pa tr
            \<and> particles_of tr = slice idx3 start len"
    using num4 rep parts by blast
  have misc: "length obbs3 = length obbs" "length ic3 = length ic"
    "length (m_mapping t4) = length (m_mapping t)" "m_root t4 = m_root t"
    using lo3 lo2 S(2) lc3 lc2 S(3) lm3 lm2 A(7) rt3 rt2 A(8) by (simp_all add: t4)
  show ?thesis
    unfolding build_post_def
    using A(1) inv4 pw misc pre4 mp ex by blast
qed

lemma buildNode_Inr:
  assumes "buildNode X c r t obbs idx ic start len pa = Some y"
  shows "arena_inv t \<longrightarrow> start + len \<le> length idx \<longrightarrow> distinct idx \<longrightarrow>
    (\<forall>t' obbs' idx' ic' k. y = Inr (t', obbs', idx', ic', k) \<longrightarrow>
       build_post t obbs idx ic start len pa t' obbs' idx' ic' k)"
  using assms
proof (induction t obbs idx ic start len pa y rule: buildNode_induct)
  case (leaf t obbs idx ic start len pa)
  show ?case
  proof (intro impI allI)
    fix t' obbs' idx' ic' k
    assume inv: "arena_inv t" and bound: "start + len \<le> length idx" and "distinct idx"
      and y: "(case make_leaf X c t (fitted X r ic start len) pa idx start len of
               Inl e \<Rightarrow> Inl e | Inr (t1, k) \<Rightarrow> Inr (t1, obbs, idx, ic, k)) = Inr (t', obbs', idx', ic', k)"
    from y have ml: "make_leaf X c t (fitted X r ic start len) pa idx start len = Inr (t', k)"
      and eqs: "obbs' = obbs" "idx' = idx" "ic' = ic"
      by (auto split: sum.splits)
    note L = make_leaf_Inr[OF ml inv bound]
    have "\<exists>tr. m_num_nodes t' = k + nodes_of tr \<and> repr False (m_nodes t') (m_mapping t') k pa tr
            \<and> particles_of tr = slice idx start len"
      using L(2,4) by (intro exI[of _ "Leaf (fitted X r ic start len) (slice idx start len)"]) simp
    then show "build_post t obbs idx ic start len pa t' obbs' idx' ic' k"
      unfolding build_post_def eqs using L(1,3,5,6,7,8) perm_within_refl[of start len idx] by blast
  qed
next
  case (internal t obbs idx ic start len pa t1 k obbs1 idx1 ic1 sr t2 obbs2 idx2 ic2 nl t3 obbs3 idx3 ic3 nr t4)
  show ?case
  proof (intro impI allI)
    fix t' obbs' idx' ic' k'
    assume inv: "arena_inv t" and bound: "start + len \<le> length idx" and dist: "distinct idx"
      and y: "Inr (t4, obbs3, idx3, ic3, k) = Inr (t', obbs', idx', ic', k')"
    have len: "1 \<le> len" using internal.hyps(3) by simp
    note A = allocateNode_Inr[OF internal.hyps(4) inv]
    note S = split_range_Inr[OF internal.hyps(5)]
    from S(5)[OF len] have sr: "1 \<le> sr" "sr \<le> len" by simp_all
    have l1: "length idx1 = length idx" using S(1) by (simp add: perm_within_def)
    have d1: "distinct idx1" using perm_within_distinct[OF S(1)] dist by simp
    have p1: "build_post t1 obbs1 idx1 ic1 start sr k t2 obbs2 idx2 ic2 nl"
      using internal.IH(1) A(3) sr bound l1 d1 by simp
    then have inv2: "arena_inv t2" and pw1: "perm_within start sr idx1 idx2"
      by (simp_all add: build_post_def)
    have l2: "length idx2 = length idx" using pw1 l1 by (simp add: perm_within_def)
    have d2: "distinct idx2" using perm_within_distinct[OF pw1] d1 by simp
    have p2: "build_post t2 obbs2 idx2 ic2 (start + sr) (len - sr) k t3 obbs3 idx3 ic3 nr"
      using internal.IH(2) inv2 sr bound l2 d2 by simp
    from build_post_internal[OF inv bound dist len internal.hyps(4) internal.hyps(5) p1 p2 internal.hyps(8)]
    show "build_post t obbs idx ic start len pa t' obbs' idx' ic' k'" using y by simp
  qed
qed simp_all


lemma updateSkip_leaf:
  "idx < length (m_nodes t) \<Longrightarrow> left (m_nodes t ! idx) = OBB_INVALID_NODE \<Longrightarrow>
   updateSkip t idx = Some (Inr (t, 1))"
  by (subst updateSkip.simps) simp

lemma updateSkip_internal:
  "idx < length (m_nodes t) \<Longrightarrow> left (m_nodes t ! idx) \<noteq> OBB_INVALID_NODE \<Longrightarrow>
   updateSkip t idx =
     Option.bind (updateSkip t (left (m_nodes t ! idx)))
       (\<lambda>res. case res of
          Inl e \<Rightarrow> Some (Inl e)
        | Inr (t1, skip_left) \<Rightarrow>
            Option.bind (updateSkip t1 (right (m_nodes t ! idx)))
              (\<lambda>res. case res of
                 Inl e \<Rightarrow> Some (Inl e)
               | Inr (t2, skip_right) \<Rightarrow>
                   (case write_node t2 idx (\<lambda>n. n\<lparr>skip := (skip_left + skip_right) mod UINT_RANGE\<rparr>) of
                      Inl e \<Rightarrow> Some (Inl e)
                    | Inr t3 \<Rightarrow> Some (Inr (t3, ((skip_left + skip_right) mod UINT_RANGE + 1) mod UINT_RANGE)))))"
  by (subst updateSkip.simps) (simp add: Let_def)

lemma updateSkip_oob:
  "\<not> idx < length (m_nodes t) \<Longrightarrow> updateSkip t idx = Some (Inl (OutOfBounds Nodes, t))"
  by (subst updateSkip.simps) simp

lemma updateSkip_repr:
  "repr False (m_nodes t) mp k pa tr \<Longrightarrow> length (m_nodes t) < UINT_RANGE \<Longrightarrow>
   \<exists>ns'. updateSkip t k = Some (Inr (t\<lparr>m_nodes := ns'\<rparr>, nodes_of tr)) \<and> length ns' = length (m_nodes t)
     \<and> repr True ns' mp k pa tr \<and> (\<forall>j. j < k \<or> k + nodes_of tr \<le> j \<longrightarrow> ns' ! j = m_nodes t ! j)"
proof (induction tr arbitrary: t k pa)
  case (Leaf ob ps)
  then have "updateSkip t k = Some (Inr (t, 1))" by (intro updateSkip_leaf) simp_all
  with Leaf.prems show ?case by (intro exI[of _ "m_nodes t"]) simp
next
  case (Internal ob l r)
  let ?nl = "nodes_of l" and ?nr = "nodes_of r"
  from Internal.prems(1) have k: "k < length (m_nodes t)" and lf: "left (m_nodes t ! k) = k + 1"
    and kinv: "k + 1 < OBB_INVALID_NODE" and rg: "right (m_nodes t ! k) = k + 1 + ?nl"
    and ob: "obb (m_nodes t ! k) = ob" and par: "parent (m_nodes t ! k) = pa"
    and rl: "repr False (m_nodes t) mp (k + 1) k l" and rr: "repr False (m_nodes t) mp (k + 1 + ?nl) k r"
    by simp_all
  from Internal.IH(1)[OF rl Internal.prems(2)] obtain ns1 where
    u1: "updateSkip t (k + 1) = Some (Inr (t\<lparr>m_nodes := ns1\<rparr>, ?nl))" and l1: "length ns1 = length (m_nodes t)"
    and r1: "repr True ns1 mp (k + 1) k l"
    and o1: "\<forall>j. j < k + 1 \<or> k + 1 + ?nl \<le> j \<longrightarrow> ns1 ! j = m_nodes t ! j"
    by blast
  have bound_r: "k + 1 + ?nl + ?nr \<le> length (m_nodes t)" using repr_bound[OF rr] by simp
  have rr1: "repr False (m_nodes (t\<lparr>m_nodes := ns1\<rparr>)) mp (k + 1 + ?nl) k r"
    using o1 l1 bound_r by (intro repr_frame[OF rr]) simp_all
  have "length (m_nodes (t\<lparr>m_nodes := ns1\<rparr>)) < UINT_RANGE" using l1 Internal.prems(2) by simp
  from Internal.IH(2)[OF rr1 this] obtain ns2 where
    u2: "updateSkip (t\<lparr>m_nodes := ns1\<rparr>) (k + 1 + ?nl) = Some (Inr (t\<lparr>m_nodes := ns2\<rparr>, ?nr))"
    and l2: "length ns2 = length (m_nodes t)"
    and r2: "repr True ns2 mp (k + 1 + ?nl) k r"
    and o2: "\<forall>j. j < k + 1 + ?nl \<or> k + 1 + ?nl + ?nr \<le> j \<longrightarrow> ns2 ! j = ns1 ! j"
    using l1 by auto
  have small: "?nl + ?nr + 1 < UINT_RANGE" using bound_r Internal.prems(2) by simp
  define ns3 where "ns3 = ns2[k := (ns2 ! k)\<lparr>skip := ?nl + ?nr\<rparr>]"
  have nek: "left (m_nodes t ! k) \<noteq> OBB_INVALID_NODE" using lf kinv by simp
  have run: "updateSkip t k = Some (Inr (t\<lparr>m_nodes := ns3\<rparr>, nodes_of (Internal ob l r)))"
    using u1 u2 k l2 small
    by (simp add: updateSkip_internal[OF k nek] lf rg write_node_def ns3_def)
  have nk: "ns2 ! k = m_nodes t ! k" using o1 o2 by simp
  have r1': "repr True ns3 mp (k + 1) k l"
  proof (rule repr_frame[OF r1])
    show "\<forall>j. k + 1 \<le> j \<and> j < k + 1 + ?nl \<longrightarrow> ns3 ! j = ns1 ! j" using o2 by (simp add: ns3_def)
    show "k + 1 + nodes_of l \<le> length ns3" using bound_r l2 by (simp add: ns3_def)
  qed simp_all
  have r2': "repr True ns3 mp (k + 1 + ?nl) k r"
    using bound_r l2 by (intro repr_frame[OF r2]) (simp_all add: ns3_def)
  have rep: "repr True ns3 mp k pa (Internal ob l r)"
    using r1' r2' k l2 nk lf rg ob par kinv by (simp add: ns3_def)
  have out: "\<forall>j. j < k \<or> k + nodes_of (Internal ob l r) \<le> j \<longrightarrow> ns3 ! j = m_nodes t ! j"
    using o1 o2 by (auto simp: ns3_def)
  have l3: "length ns3 = length (m_nodes t)" using l2 by (simp add: ns3_def)
  show ?case using run rep out l3 by blast
qed

lemma mset_upt_distinct: "mset xs = mset [0..<N] \<Longrightarrow> distinct xs \<and> set xs = {0..<N} \<and> length xs = N"
  by (metis atLeastLessThan_upt distinct_upt length_upt mset_eq_imp_distinct_iff mset_eq_length mset_eq_setD diff_zero)

definition built ::
  "'obb OBBTree \<Rightarrow> nat \<Rightarrow> 'obb subtree \<Rightarrow> bool" where
  "built t N tr \<longleftrightarrow>
     arena_inv t \<and> m_root t = 0 \<and> m_num_nodes t = nodes_of tr \<and> length (m_mapping t) = N
     \<and> repr True (m_nodes t) (m_mapping t) 0 OBB_INVALID_NODE tr
     \<and> mset (particles_of tr) = mset [0..<N]"

lemma buildTree_built:
  assumes run: "buildTree X c t obbs ic r N = Some (Inr (t', obbs', ic'))" and ok: "arena_ok t"
  shows "\<exists>tr. built t' N tr"
proof -
  let ?t0 = "init t N"
  from run obtain res1 where
    bn0: "buildNode X c r ?t0 obbs [0..<N] ic 0 N OBB_INVALID_NODE = Some res1"
    and rest1: "(case res1 of
              Inl e \<Rightarrow> Some (Inl e)
            | Inr (t1, obbs1, idx1, ic1, root) \<Rightarrow>
                Option.bind (updateSkip (t1\<lparr>m_root := root\<rparr>) root)
                  (\<lambda>res. case res of
                     Inl e \<Rightarrow> Some (Inl e)
                   | Inr (t2, subtree_size) \<Rightarrow> Some (Inr (t2, obbs1, ic1)))) = Some (Inr (t', obbs', ic'))"
    unfolding buildTree_def Let_def by (auto simp: bind_eq_Some_conv)
  from rest1 obtain t1 obbs1 idx1 ic1 root where res1: "res1 = Inr (t1, obbs1, idx1, ic1, root)"
    by (cases res1) auto
  from rest1[unfolded res1] obtain res2 where
    us0: "updateSkip (t1\<lparr>m_root := root\<rparr>) root = Some res2"
    and rest2: "(case res2 of
                     Inl e \<Rightarrow> Some (Inl e)
                   | Inr (t2, subtree_size) \<Rightarrow> Some (Inr (t2, obbs1, ic1))) = Some (Inr (t', obbs', ic'))"
    by (auto simp: bind_eq_Some_conv)
  from rest2 obtain t2 sz where res2: "res2 = Inr (t2, sz)" and t': "t' = t2"
    by (cases res2) auto
  note bn = bn0[unfolded res1] and us = us0[unfolded res2]
  have inv0: "arena_inv ?t0" using ok by (simp add: arena_inv_def arena_ok_def init_def)
  from buildNode_Inr[OF bn] inv0
  have post: "build_post ?t0 obbs [0..<N] ic 0 N OBB_INVALID_NODE t1 obbs1 idx1 ic1 root" by simp
  then obtain tr where
    root: "root = 0" and inv1: "arena_inv t1" and pw: "perm_within 0 N [0..<N] idx1"
    and lm: "length (m_mapping t1) = N"
    and n1: "m_num_nodes t1 = nodes_of tr"
    and rep: "repr False (m_nodes t1) (m_mapping t1) 0 OBB_INVALID_NODE tr"
    and parts: "particles_of tr = slice idx1 0 N"
    unfolding build_post_def by (auto simp: init_def)
  have li: "length idx1 = N" using pw by (simp add: perm_within_def)
  have parts': "particles_of tr = idx1" using parts li by (simp add: slice_def)
  have ms: "mset (particles_of tr) = mset [0..<N]" using pw parts' by (simp add: perm_within_def)
  have lt: "length (m_nodes (t1\<lparr>m_root := root\<rparr>)) < UINT_RANGE"
    using inv1 by (simp add: arena_inv_def arena_ok_def)
  from updateSkip_repr[of "t1\<lparr>m_root := root\<rparr>" "m_mapping t1" 0 OBB_INVALID_NODE tr] rep lt
  obtain ns' where
    u: "updateSkip (t1\<lparr>m_root := root\<rparr>) 0 = Some (Inr (t1\<lparr>m_root := root, m_nodes := ns'\<rparr>, nodes_of tr))"
    and l': "length ns' = length (m_nodes t1)" and rep': "repr True ns' (m_mapping t1) 0 OBB_INVALID_NODE tr"
    by auto
  from us u root have t2: "t2 = t1\<lparr>m_root := 0, m_nodes := ns'\<rparr>" by simp
  have "built t' N tr"
    unfolding built_def t' t2 using inv1 l' rep' n1 lm ms
    by (simp add: arena_inv_def arena_ok_def)
  then show ?thesis ..
qed


inductive descendant :: "'obb OBBNode list \<Rightarrow> nat \<Rightarrow> nat \<Rightarrow> bool" for ns where
  self: "descendant ns k k"
| in_left: "left (ns ! k) \<noteq> OBB_INVALID_NODE \<Longrightarrow> descendant ns (left (ns ! k)) j \<Longrightarrow> descendant ns k j"
| in_right: "left (ns ! k) \<noteq> OBB_INVALID_NODE \<Longrightarrow> descendant ns (right (ns ! k)) j \<Longrightarrow> descendant ns k j"

lemma descendant_unfold:
  "descendant ns k j \<longleftrightarrow> j = k \<or> (left (ns ! k) \<noteq> OBB_INVALID_NODE \<and>
     (descendant ns (left (ns ! k)) j \<or> descendant ns (right (ns ! k)) j))"
  by (subst descendant.simps) auto

lemma repr_sub:
  "repr sk ns mp k pa tr \<Longrightarrow> k \<le> j \<Longrightarrow> j < k + nodes_of tr \<Longrightarrow>
   \<exists>pa' tr'. repr sk ns mp j pa' tr' \<and> j + nodes_of tr' \<le> k + nodes_of tr"
proof (induction tr arbitrary: k pa)
  case (Leaf ob ps)
  then have "j = k" by simp
  with Leaf.prems(1) show ?case by (intro exI[of _ pa] exI[of _ "Leaf ob ps"]) simp
next
  case (Internal ob l r)
  from Internal.prems(1) have rl: "repr sk ns mp (k + 1) k l" and rr: "repr sk ns mp (k + 1 + nodes_of l) k r"
    by simp_all
  consider "j = k" | "k + 1 \<le> j" "j < k + 1 + nodes_of l" | "k + 1 + nodes_of l \<le> j"
    using Internal.prems(2) by linarith
  then show ?case
  proof cases
    case 1
    with Internal.prems(1) show ?thesis by (intro exI[of _ pa] exI[of _ "Internal ob l r"]) simp
  next
    case 2
    from Internal.IH(1)[OF rl 2] show ?thesis by fastforce
  next
    case 3
    from Internal.IH(2)[OF rr 3] Internal.prems(3) show ?thesis by fastforce
  qed
qed

lemma repr_descendants:
  "repr sk ns mp k pa tr \<Longrightarrow> {j. descendant ns k j} = {k..<k + nodes_of tr}"
proof (induction tr arbitrary: k pa)
  case (Leaf ob ps)
  then have "left (ns ! k) = OBB_INVALID_NODE" by simp
  then have "\<And>j. descendant ns k j \<longleftrightarrow> j = k" by (subst descendant_unfold) simp
  then show ?case by auto
next
  case (Internal ob l r)
  from Internal.prems have rl: "repr sk ns mp (k + 1) k l" and rr: "repr sk ns mp (k + 1 + nodes_of l) k r"
    and lf: "left (ns ! k) = k + 1" and rg: "right (ns ! k) = k + 1 + nodes_of l"
    and ne: "k + 1 < OBB_INVALID_NODE"
    by simp_all
  have "\<And>j. descendant ns k j \<longleftrightarrow> j = k \<or> descendant ns (k + 1) j \<or> descendant ns (k + 1 + nodes_of l) j"
    using ne by (subst descendant_unfold) (simp add: lf rg)
  then have "{j. descendant ns k j} = {k} \<union> {j. descendant ns (k + 1) j} \<union> {j. descendant ns (k + 1 + nodes_of l) j}"
    by auto
  also have "\<dots> = {k} \<union> {k + 1..<k + 1 + nodes_of l} \<union> {k + 1 + nodes_of l..<k + 1 + nodes_of l + nodes_of r}"
    using Internal.IH(1)[OF rl] Internal.IH(2)[OF rr] by simp
  also have "\<dots> = {k..<k + nodes_of (Internal ob l r)}"
    using nodes_of_pos[of l] nodes_of_pos[of r] by auto
  finally show ?case .
qed

lemma repr_skip: "repr True ns mp k pa tr \<Longrightarrow> skip (ns ! k) + 1 = nodes_of tr"
  by (cases tr) simp_all

lemma repr_leaf_iff: "repr sk ns mp k pa tr \<Longrightarrow> left (ns ! k) = OBB_INVALID_NODE \<longleftrightarrow> (\<exists>ob ps. tr = Leaf ob ps)"
  by (cases tr) auto

lemma built_layout:
  assumes "built t N tr" "k < m_num_nodes t"
  shows "(left (m_nodes t ! k) \<noteq> OBB_INVALID_NODE \<longrightarrow>
            left (m_nodes t ! k) = k + 1
          \<and> left (m_nodes t ! k) < right (m_nodes t ! k)
          \<and> right (m_nodes t ! k) < m_num_nodes t
          \<and> {j. descendant (m_nodes t) k j} = {k..<k + skip (m_nodes t ! k) + 1}
          \<and> k + skip (m_nodes t ! k) + 1 \<le> m_num_nodes t
          \<and> skip (m_nodes t ! k)
               = skip (m_nodes t ! left (m_nodes t ! k)) + 1 + skip (m_nodes t ! right (m_nodes t ! k)) + 1)
       \<and> (left (m_nodes t ! k) = OBB_INVALID_NODE \<longrightarrow> skip (m_nodes t ! k) = 0)"
proof -
  from assms(1) have rep: "repr True (m_nodes t) (m_mapping t) 0 OBB_INVALID_NODE tr"
    and n: "m_num_nodes t = nodes_of tr" by (simp_all add: built_def)
  from repr_sub[OF rep, of k] assms(2) n obtain pa' tr' where
    sub: "repr True (m_nodes t) (m_mapping t) k pa' tr'" and b: "k + nodes_of tr' \<le> m_num_nodes t"
    by auto
  show ?thesis
  proof (cases tr')
    case (Leaf ob ps)
    with sub show ?thesis by simp
  next
    case (Internal ob l r)
    from sub[unfolded Internal] have f: "left (m_nodes t ! k) = k + 1" "k + 1 < OBB_INVALID_NODE"
      "right (m_nodes t ! k) = k + 1 + nodes_of l" "skip (m_nodes t ! k) = nodes_of l + nodes_of r"
      and rl: "repr True (m_nodes t) (m_mapping t) (k + 1) k l"
      and rr: "repr True (m_nodes t) (m_mapping t) (k + 1 + nodes_of l) k r"
      by simp_all
    have d: "{j. descendant (m_nodes t) k j} = {k..<k + nodes_of tr'}" by (rule repr_descendants[OF sub])
    show ?thesis
      using f d b repr_skip[OF rl] repr_skip[OF rr] nodes_of_pos[of l] nodes_of_pos[of r]
      by (simp add: Internal)
  qed
qed


definition fit_interval :: "int list \<Rightarrow> int \<Rightarrow> int \<times> int" where
  "fit_interval pts r = (case pts of [] \<Rightarrow> (0, 0) | p # ps \<Rightarrow> (fold min ps p - r, fold max ps p + r))"

definition interval_env :: "(nat \<Rightarrow> bool) \<Rightarrow> (int \<times> int, int, int) OBBEnv" where
  "interval_env ok =
     \<lparr>compute_obb = fit_interval,
      overlap = (\<lambda>a b. fst a \<le> snd b \<and> fst b \<le> snd a),
      getCorners = (\<lambda>a. [fst a, snd a]),
      proj_negative = (\<lambda>a my. fst a + snd a < fst my + snd my),
      default_obb = (0, 0),
      zero_radius = 0,
      memalign_ok = ok\<rparr>"

definition leaf_node :: "int \<times> int \<Rightarrow> nat \<Rightarrow> nat list \<Rightarrow> nat \<Rightarrow> (int \<times> int) OBBNode" where
  "leaf_node ob pa ps n =
     \<lparr>obb = ob, left = OBB_INVALID_NODE, right = OBB_INVALID_NODE, parent = pa, skip = 0,
      particles = ps, num_particles = n\<rparr>"

definition internal_node :: "int \<times> int \<Rightarrow> nat \<Rightarrow> nat \<Rightarrow> nat \<Rightarrow> nat \<Rightarrow> nat list \<Rightarrow> (int \<times> int) OBBNode" where
  "internal_node ob l r pa sk ps =
     \<lparr>obb = ob, left = l, right = r, parent = pa, skip = sk, particles = ps, num_particles = 0\<rparr>"

definition example_tree :: "(int \<times> int) OBBTree" where
  "example_tree =
     \<lparr>m_nodes = [internal_node (0, 21) 1 2 OBB_INVALID_NODE 4 [0],
                 leaf_node (0, 1) 0 [0] 1,
                 internal_node (10, 21) 3 4 0 2 [0],
                 leaf_node (10, 11) 2 [2] 1,
                 leaf_node (20, 21) 2 [1] 1]
                @ replicate 11 (OBBNode_default (interval_env (\<lambda>_. True)) 1),
      m_num_nodes = 5, m_node_capacity = 16, m_root = 0, m_mapping = [1, 4, 3]\<rparr>"

lemma replicate_numeral: "replicate (numeral v) x = x # replicate (pred_numeral v) x"
  by (simp add: numeral_eq_Suc)

lemma list_update_numeral: "(x # xs)[numeral v := y] = x # xs[pred_numeral v := y]"
  by (simp add: numeral_eq_Suc)

lemmas build_evals = buildNode_leaf buildNode_internal buildNode_oob_obbs buildNode_oob_coords
  updateSkip_leaf updateSkip_internal
  buildTree_def init_def OBBTree_new_def interval_env_def fit_interval_def make_leaf_def split_range_def
  allocateNode_def place_node_def write_node_def OBBNode_default_def UINT_RANGE_def OBB_INVALID_NODE_def
  partition_sweep.simps assign_particles.simps swap_def Let_def upt_rec
  replicate_numeral list_update_numeral

lemma example_build:
  "buildTree (interval_env (\<lambda>_. True)) 1 OBBTree_new [(0, 1), (20, 21), (10, 11)] [[0, 1], [20, 21], [10, 11]] 0 3
   = Some (Inr (example_tree, [(0, 1), (10, 11), (20, 21)], [[0, 1], [10, 11], [20, 21]]))"
  by (simp add: build_evals example_tree_def leaf_node_def internal_node_def)


lemma example_arena_ok: "arena_ok OBBTree_new"
  by (simp add: arena_ok_def OBBTree_new_def UINT_RANGE_def)

text \<open>
  C1. After a successful \<open>buildTree\<close> the occupied slots are a depth-first pre-order layout
  with correct skip fields: an internal node at index \<open>k\<close> has its left child at \<open>k + 1\<close>, its
  right child at a larger index, the nodes reachable from it through child links are exactly the
  slots \<open>k, \<dots>, k + skip k\<close>, and \<open>skip k = skip left + 1 + skip right + 1\<close>; a leaf has skip 0.
\<close>

theorem buildTree_preorder_layout:
  assumes "buildTree X node_capacity t obbs internal_coordinates vertex_radius N = Some (Inr (t', obbs', ic'))"
    and "arena_ok t" and "k < m_num_nodes t'"
  shows "(left (m_nodes t' ! k) \<noteq> OBB_INVALID_NODE \<longrightarrow>
            left (m_nodes t' ! k) = k + 1
          \<and> left (m_nodes t' ! k) < right (m_nodes t' ! k)
          \<and> right (m_nodes t' ! k) < m_num_nodes t'
          \<and> {j. descendant (m_nodes t') k j} = {k..<k + skip (m_nodes t' ! k) + 1}
          \<and> k + skip (m_nodes t' ! k) + 1 \<le> m_num_nodes t'
          \<and> skip (m_nodes t' ! k)
               = skip (m_nodes t' ! left (m_nodes t' ! k)) + 1 + skip (m_nodes t' ! right (m_nodes t' ! k)) + 1)
       \<and> (left (m_nodes t' ! k) = OBB_INVALID_NODE \<longrightarrow> skip (m_nodes t' ! k) = 0)"
proof -
  from buildTree_built[OF assms(1,2)] obtain tr where "built t' N tr" ..
  from built_layout[OF this assms(3)] show ?thesis .
qed

theorem buildTree_preorder_layout_witness:
  "left (m_nodes example_tree ! 0) = 1 \<and> right (m_nodes example_tree ! 0) = 2
   \<and> {j. descendant (m_nodes example_tree) 0 j} = {0..<5}
   \<and> skip (m_nodes example_tree ! 0)
        = skip (m_nodes example_tree ! 1) + 1 + skip (m_nodes example_tree ! 2) + 1
   \<and> skip (m_nodes example_tree ! 1) = 0"
  using buildTree_preorder_layout[OF example_build example_arena_ok, of 0]
    buildTree_preorder_layout[OF example_build example_arena_ok, of 1]
  by (simp add: example_tree_def internal_node_def leaf_node_def OBB_INVALID_NODE_def)

subsection \<open>Coverage and the reverse mapping\<close>

definition isNodeLeaf :: "'obb OBBTree \<Rightarrow> nat \<Rightarrow> bool" where
  "isNodeLeaf t node \<longleftrightarrow> left (m_nodes t ! node) = OBB_INVALID_NODE"

definition node_particles :: "'obb OBBTree \<Rightarrow> nat \<Rightarrow> nat list" where
  "node_particles t node =
     map (\<lambda>i. particles (m_nodes t ! node) ! i) [0..<num_particles (m_nodes t ! node)]"

definition leaves :: "'obb OBBTree \<Rightarrow> nat list" where
  "leaves t = filter (isNodeLeaf t) [0..<m_num_nodes t]"

lemma map_nth_take: "n \<le> length xs \<Longrightarrow> map (\<lambda>i. xs ! i) [0..<n] = take n xs"
  by (intro nth_equalityI) simp_all

lemma repr_leaf_particles:
  "repr sk (m_nodes t) mp k pa (Leaf ob ps) \<Longrightarrow> node_particles t k = ps"
  by (simp add: node_particles_def map_nth_take)

lemma upt_split3:
  "[k..<k + (1 + a + b)] = k # [k + 1..<k + 1 + a] @ [k + 1 + a..<k + 1 + a + b]"
proof -
  have "[k..<k + (1 + a + b)] = k # [k + 1..<k + 1 + (a + b)]" by (subst upt_rec) simp
  also have "[k + 1..<k + 1 + (a + b)] = [k + 1..<k + 1 + a] @ [k + 1 + a..<k + 1 + a + b]"
    using upt_add_eq_append[of "k + 1" "k + 1 + a" b] by (simp add: add.assoc)
  finally show ?thesis .
qed

lemma repr_leaves:
  "repr sk (m_nodes t) mp k pa tr \<Longrightarrow>
   concat (map (node_particles t) (filter (isNodeLeaf t) [k..<k + nodes_of tr])) = particles_of tr"
proof (induction tr arbitrary: k pa)
  case (Leaf ob ps)
  then show ?case using repr_leaf_particles[OF Leaf.prems] by (simp add: isNodeLeaf_def)
next
  case (Internal ob l r)
  from Internal.prems have rl: "repr sk (m_nodes t) mp (k + 1) k l"
    and rr: "repr sk (m_nodes t) mp (k + 1 + nodes_of l) k r"
    and nl: "\<not> isNodeLeaf t k"
    by (simp_all add: isNodeLeaf_def)
  show ?case
    using Internal.IH(1)[OF rl] Internal.IH(2)[OF rr] nl
    by (simp only: nodes_of.simps upt_split3 filter.simps filter_append map_append concat_append
        particles_of.simps if_False)
qed

lemma repr_mapping:
  "repr sk (m_nodes t) mp k pa tr \<Longrightarrow> p \<in> set (particles_of tr) \<Longrightarrow>
   k \<le> mp ! p \<and> mp ! p < k + nodes_of tr \<and> isNodeLeaf t (mp ! p) \<and> p \<in> set (node_particles t (mp ! p))"
proof (induction tr arbitrary: k pa)
  case (Leaf ob ps)
  then have "mp ! p = k" by simp
  then show ?case using Leaf.prems repr_leaf_particles[OF Leaf.prems(1)] by (simp add: isNodeLeaf_def)
next
  case (Internal ob l r)
  from Internal.prems have rl: "repr sk (m_nodes t) mp (k + 1) k l"
    and rr: "repr sk (m_nodes t) mp (k + 1 + nodes_of l) k r"
    by simp_all
  from Internal.prems(2) consider "p \<in> set (particles_of l)" | "p \<in> set (particles_of r)" by auto
  then show ?case
  proof cases
    case 1
    from Internal.IH(1)[OF rl 1] show ?thesis by simp
  next
    case 2
    from Internal.IH(2)[OF rr 2] show ?thesis by simp
  qed
qed

lemma repr_leaf_owner:
  "repr sk (m_nodes t) mp k pa tr \<Longrightarrow> k \<le> j \<Longrightarrow> j < k + nodes_of tr \<Longrightarrow> isNodeLeaf t j \<Longrightarrow>
   p \<in> set (node_particles t j) \<Longrightarrow> mp ! p = j"
proof (induction tr arbitrary: k pa)
  case (Leaf ob ps)
  then have "j = k" by simp
  then show ?case using Leaf.prems repr_leaf_particles[OF Leaf.prems(1)] by simp
next
  case (Internal ob l r)
  from Internal.prems have rl: "repr sk (m_nodes t) mp (k + 1) k l"
    and rr: "repr sk (m_nodes t) mp (k + 1 + nodes_of l) k r"
    and nl: "\<not> isNodeLeaf t k"
    by (simp_all add: isNodeLeaf_def)
  from nl Internal.prems(4) have "j \<noteq> k" by auto
  then consider "k + 1 \<le> j" "j < k + 1 + nodes_of l" | "k + 1 + nodes_of l \<le> j"
    using Internal.prems(2) by linarith
  then show ?case
  proof cases
    case 1
    from Internal.IH(1)[OF rl 1 Internal.prems(4,5)] show ?thesis .
  next
    case 2
    from Internal.IH(2)[OF rr 2 _ Internal.prems(4,5)] Internal.prems(3) show ?thesis by simp
  qed
qed

text \<open>
  C5. After a successful \<open>buildTree\<close> over particles \<open>0, \<dots>, N - 1\<close> the particle arrays of the
  leaves, taken together, hold every particle exactly once, and \<open>mapping[p]\<close> is the index of the
  one leaf whose array holds \<open>p\<close>.
\<close>

theorem buildTree_coverage_mapping:
  assumes "buildTree X node_capacity t obbs internal_coordinates vertex_radius N = Some (Inr (t', obbs', ic'))"
    and "arena_ok t"
  shows "mset (concat (map (node_particles t') (leaves t'))) = mset [0..<N]
     \<and> length (m_mapping t') = N
     \<and> (\<forall>p<N. m_mapping t' ! p < m_num_nodes t' \<and> isNodeLeaf t' (m_mapping t' ! p)
              \<and> p \<in> set (node_particles t' (m_mapping t' ! p)))
     \<and> (\<forall>k<m_num_nodes t'. \<forall>p. isNodeLeaf t' k \<and> p \<in> set (node_particles t' k) \<longrightarrow> m_mapping t' ! p = k)"
proof -
  from buildTree_built[OF assms] obtain tr where b: "built t' N tr" ..
  then have rep: "repr True (m_nodes t') (m_mapping t') 0 OBB_INVALID_NODE tr"
    and n: "m_num_nodes t' = nodes_of tr" and lm: "length (m_mapping t') = N"
    and ms: "mset (particles_of tr) = mset [0..<N]"
    by (simp_all add: built_def)
  have cov: "concat (map (node_particles t') (leaves t')) = particles_of tr"
    using repr_leaves[OF rep] n by (simp add: leaves_def)
  have set_eq: "set (particles_of tr) = {0..<N}" using mset_upt_distinct[OF ms] by simp
  have A: "\<forall>p<N. m_mapping t' ! p < m_num_nodes t' \<and> isNodeLeaf t' (m_mapping t' ! p)
              \<and> p \<in> set (node_particles t' (m_mapping t' ! p))"
  proof (intro allI impI)
    fix p assume "p < N"
    then have "p \<in> set (particles_of tr)" using set_eq by simp
    from repr_mapping[OF rep this] n
    show "m_mapping t' ! p < m_num_nodes t' \<and> isNodeLeaf t' (m_mapping t' ! p)
              \<and> p \<in> set (node_particles t' (m_mapping t' ! p))" by simp
  qed
  have B: "\<forall>k<m_num_nodes t'. \<forall>p. isNodeLeaf t' k \<and> p \<in> set (node_particles t' k) \<longrightarrow> m_mapping t' ! p = k"
    using repr_leaf_owner[OF rep] n by simp
  show ?thesis using cov ms lm A B by simp
qed

theorem buildTree_coverage_mapping_witness:
  "mset (concat (map (node_particles example_tree) (leaves example_tree))) = mset [0..<3]
   \<and> m_mapping example_tree ! 1 = 4 \<and> isNodeLeaf example_tree 4 \<and> node_particles example_tree 4 = [1]"
  using buildTree_coverage_mapping[OF example_build example_arena_ok]
  by (simp add: example_tree_def leaf_node_def internal_node_def node_particles_def isNodeLeaf_def)

subsection \<open>The stackless query on a built tree\<close>

lemma query_from_done:
  "\<not> i < m_num_nodes t \<Longrightarrow> query_from X t q i hits c = Some (Inr (hits, c))"
  by (subst query_from.simps) simp

lemma query_from_oob:
  "i < m_num_nodes t \<Longrightarrow> \<not> i < length (m_nodes t) \<Longrightarrow> query_from X t q i hits c = Some (Inl (OutOfBounds Nodes))"
  by (subst query_from.simps) simp

lemma query_from_miss:
  "i < m_num_nodes t \<Longrightarrow> i < length (m_nodes t) \<Longrightarrow> \<not> overlap X (obb (m_nodes t ! i)) q \<Longrightarrow>
   query_from X t q i hits c =
   query_from X t q (((i + skip (m_nodes t ! i)) mod UINT_RANGE + 1) mod UINT_RANGE) hits ((c + 1) mod UINT_RANGE)"
  by (subst query_from.simps) (simp add: Let_def)

lemma query_from_hit_internal:
  "i < m_num_nodes t \<Longrightarrow> i < length (m_nodes t) \<Longrightarrow> overlap X (obb (m_nodes t ! i)) q \<Longrightarrow>
   left (m_nodes t ! i) \<noteq> OBB_INVALID_NODE \<Longrightarrow>
   query_from X t q i hits c = query_from X t q ((i + 1) mod UINT_RANGE) hits ((c + 1) mod UINT_RANGE)"
  by (subst query_from.simps) (simp add: Let_def)

lemma query_from_hit_leaf:
  "i < m_num_nodes t \<Longrightarrow> i < length (m_nodes t) \<Longrightarrow> overlap X (obb (m_nodes t ! i)) q \<Longrightarrow>
   left (m_nodes t ! i) = OBB_INVALID_NODE \<Longrightarrow>
   query_from X t q i hits c =
   (if num_particles (m_nodes t ! i) \<le> length (particles (m_nodes t ! i))
    then query_from X t q ((i + 1) mod UINT_RANGE) (hits @ node_particles t i) ((c + 1) mod UINT_RANGE)
    else Some (Inl (OutOfBounds Particles)))"
  by (subst query_from.simps) (simp add: Let_def node_particles_def)

fun emit :: "('obb, 'pt, 'r) OBBEnv \<Rightarrow> 'obb \<Rightarrow> 'obb subtree \<Rightarrow> nat list" where
  "emit X q (Leaf ob ps) = (if overlap X ob q then ps else [])"
| "emit X q (Internal ob l r) = (if overlap X ob q then emit X q l @ emit X q r else [])"

fun tests :: "('obb, 'pt, 'r) OBBEnv \<Rightarrow> 'obb \<Rightarrow> 'obb subtree \<Rightarrow> nat" where
  "tests X q (Leaf ob ps) = 1"
| "tests X q (Internal ob l r) = (if overlap X ob q then 1 + tests X q l + tests X q r else 1)"

lemma tests_le: "tests X q tr \<le> nodes_of tr"
  by (induction tr) auto

lemma query_from_repr:
  "repr True (m_nodes t) mp k pa tr \<Longrightarrow> k + nodes_of tr \<le> m_num_nodes t \<Longrightarrow> m_num_nodes t < UINT_RANGE \<Longrightarrow>
   c + nodes_of tr < UINT_RANGE \<Longrightarrow>
   query_from X t q k hits c = query_from X t q (k + nodes_of tr) (hits @ emit X q tr) (c + tests X q tr)"
proof (induction tr arbitrary: k pa hits c)
  case (Leaf ob ps)
  from Leaf.prems have k: "k < m_num_nodes t" "k < length (m_nodes t)" and lf: "left (m_nodes t ! k) = OBB_INVALID_NODE"
    and ob: "obb (m_nodes t ! k) = ob" and sk: "skip (m_nodes t ! k) = 0"
    and np: "num_particles (m_nodes t ! k) \<le> length (particles (m_nodes t ! k))"
    and small: "k + 1 < UINT_RANGE" "c + 1 < UINT_RANGE"
    by simp_all
  show ?case
  proof (cases "overlap X ob q")
    case True
    then show ?thesis
      using query_from_hit_leaf[OF k _ lf, of X q hits c] ob np small repr_leaf_particles[OF Leaf.prems(1)]
      by simp
  next
    case False
    then show ?thesis
      using query_from_miss[OF k, of X q hits c] ob sk small by simp
  qed
next
  case (Internal ob l r)
  let ?nl = "nodes_of l" and ?nr = "nodes_of r"
  from Internal.prems have k: "k < m_num_nodes t" "k < length (m_nodes t)"
    and lf: "left (m_nodes t ! k) = k + 1" and kinv: "k + 1 < OBB_INVALID_NODE"
    and ob: "obb (m_nodes t ! k) = ob" and sk: "skip (m_nodes t ! k) = ?nl + ?nr"
    and rl: "repr True (m_nodes t) mp (k + 1) k l" and rr: "repr True (m_nodes t) mp (k + 1 + ?nl) k r"
    and small: "k + 1 + ?nl + ?nr < UINT_RANGE" "c + 1 + ?nl + ?nr < UINT_RANGE"
    and b: "k + 1 + ?nl + ?nr \<le> m_num_nodes t"
    by simp_all
  have ne: "left (m_nodes t ! k) \<noteq> OBB_INVALID_NODE" using lf kinv by simp
  show ?case
  proof (cases "overlap X ob q")
    case True
    have 1: "query_from X t q k hits c = query_from X t q (k + 1) hits (c + 1)"
      using query_from_hit_internal[OF k _ ne, of X q hits c] ob True small by simp
    have 2: "query_from X t q (k + 1) hits (c + 1)
        = query_from X t q (k + 1 + ?nl) (hits @ emit X q l) (c + 1 + tests X q l)"
      using b small Internal.prems(3) by (intro Internal.IH(1)[OF rl]) simp_all
    have 3: "query_from X t q (k + 1 + ?nl) (hits @ emit X q l) (c + 1 + tests X q l)
        = query_from X t q (k + 1 + ?nl + ?nr) ((hits @ emit X q l) @ emit X q r) (c + 1 + tests X q l + tests X q r)"
      using b small Internal.prems(3) tests_le[of X q l] by (intro Internal.IH(2)[OF rr]) simp_all
    show ?thesis using 1 2 3 True by (simp add: add.assoc)
  next
    case False
    then show ?thesis
      using query_from_miss[OF k, of X q hits c] ob sk small by (simp add: add.assoc)
  qed
qed

lemma query_built_emit:
  assumes "built t N tr"
  shows "query X t hits q = Some (Inr (hits @ emit X q tr, tests X q tr))"
proof -
  from assms have rep: "repr True (m_nodes t) (m_mapping t) 0 OBB_INVALID_NODE tr"
    and n: "m_num_nodes t = nodes_of tr" and inv: "arena_inv t"
    by (simp_all add: built_def)
  have lt: "m_num_nodes t < UINT_RANGE" using inv by (simp add: arena_inv_def arena_ok_def)
  have "query_from X t q 0 hits 0 = query_from X t q (0 + nodes_of tr) (hits @ emit X q tr) (0 + tests X q tr)"
    using n lt by (intro query_from_repr[OF rep]) simp_all
  then show ?thesis using n by (simp add: query_def query_from_done)
qed

text \<open>The nodes the sweep of \<open>query\<close> tests and finds overlapping: the node and every ancestor
  on its parent chain overlap the query box.\<close>

inductive reached :: "('obb, 'pt, 'r) OBBEnv \<Rightarrow> 'obb OBBTree \<Rightarrow> 'obb \<Rightarrow> nat \<Rightarrow> bool" for X t q where
  at_root: "parent (m_nodes t ! k) = OBB_INVALID_NODE \<Longrightarrow> overlap X (obb (m_nodes t ! k)) q \<Longrightarrow> reached X t q k"
| below: "parent (m_nodes t ! k) \<noteq> OBB_INVALID_NODE \<Longrightarrow> reached X t q (parent (m_nodes t ! k)) \<Longrightarrow>
     overlap X (obb (m_nodes t ! k)) q \<Longrightarrow> reached X t q k"

lemma reached_unfold:
  "reached X t q k \<longleftrightarrow> overlap X (obb (m_nodes t ! k)) q \<and>
     (parent (m_nodes t ! k) = OBB_INVALID_NODE \<or> reached X t q (parent (m_nodes t ! k)))"
  by (subst reached.simps) auto

lemma repr_emit_reached:
  "repr sk (m_nodes t) mp k pa tr \<Longrightarrow>
   concat (map (node_particles t) (filter (reached X t q) (filter (isNodeLeaf t) [k..<k + nodes_of tr])))
     = (if pa = OBB_INVALID_NODE \<or> reached X t q pa then emit X q tr else [])"
proof (induction tr arbitrary: k pa)
  case (Leaf ob ps)
  from Leaf.prems have lf: "isNodeLeaf t k" and ob: "obb (m_nodes t ! k) = ob" and pa: "parent (m_nodes t ! k) = pa"
    by (simp_all add: isNodeLeaf_def)
  have "reached X t q k \<longleftrightarrow> overlap X ob q \<and> (pa = OBB_INVALID_NODE \<or> reached X t q pa)"
    by (subst reached_unfold) (simp add: ob pa)
  then show ?case using lf repr_leaf_particles[OF Leaf.prems] by simp
next
  case (Internal ob l r)
  from Internal.prems have rl: "repr sk (m_nodes t) mp (k + 1) k l"
    and rr: "repr sk (m_nodes t) mp (k + 1 + nodes_of l) k r"
    and nl: "\<not> isNodeLeaf t k" and kinv: "k \<noteq> OBB_INVALID_NODE"
    and ob: "obb (m_nodes t ! k) = ob" and pa: "parent (m_nodes t ! k) = pa"
    by (simp_all add: isNodeLeaf_def)
  have rk: "reached X t q k \<longleftrightarrow> overlap X ob q \<and> (pa = OBB_INVALID_NODE \<or> reached X t q pa)"
    by (subst reached_unfold) (simp add: ob pa)
  have "concat (map (node_particles t) (filter (reached X t q) (filter (isNodeLeaf t) [k..<k + nodes_of (Internal ob l r)])))
      = concat (map (node_particles t) (filter (reached X t q) (filter (isNodeLeaf t) [k + 1..<k + 1 + nodes_of l])))
        @ concat (map (node_particles t) (filter (reached X t q) (filter (isNodeLeaf t) [k + 1 + nodes_of l..<k + 1 + nodes_of l + nodes_of r])))"
    using nl by (simp only: nodes_of.simps upt_split3 filter.simps filter_append map_append concat_append if_False)
  also have "\<dots> = (if reached X t q k then emit X q l else []) @ (if reached X t q k then emit X q r else [])"
    using Internal.IH(1)[OF rl] Internal.IH(2)[OF rr] kinv by simp
  also have "\<dots> = (if pa = OBB_INVALID_NODE \<or> reached X t q pa then emit X q (Internal ob l r) else [])"
    using rk by simp
  finally show ?case .
qed

lemma query_built:
  assumes "built t N tr"
  shows "query X t hits q
     = Some (Inr (hits @ concat (map (node_particles t) (filter (reached X t q) (leaves t))), tests X q tr))"
proof -
  from assms have rep: "repr True (m_nodes t) (m_mapping t) 0 OBB_INVALID_NODE tr"
    and n: "m_num_nodes t = nodes_of tr"
    by (simp_all add: built_def)
  from repr_emit_reached[OF rep, of X q] n
  have "concat (map (node_particles t) (filter (reached X t q) (leaves t))) = emit X q tr"
    by (simp add: leaves_def)
  then show ?thesis using query_built_emit[OF assms, of X hits q] by simp
qed

subsection \<open>Emission contract of the query\<close>

lemmas query_evals = query_def query_from_done query_from_oob query_from_miss query_from_hit_internal
  query_from_hit_leaf node_particles_def UINT_RANGE_def OBB_INVALID_NODE_def interval_env_def upt_rec

lemma example_query:
  "query (interval_env (\<lambda>_. True)) example_tree [7] (10, 10) = Some (Inr ([7, 2], 5))"
  by (simp add: query_evals example_tree_def leaf_node_def internal_node_def)

text \<open>
  C6, as amended. \<open>query\<close> keeps the elements of \<open>hits\<close> in place and appends the particle
  arrays of the leaves that it reaches, in ascending arena index and each array in stored order;
  a leaf is reached when its own OBB and the OBB of each of its ancestors overlap the query box.
  The result is a function of the tree, \<open>hits\<close> and the box, so equal queries append equal
  sequences.
\<close>

theorem query_emission:
  assumes "buildTree X node_capacity t obbs internal_coordinates vertex_radius N = Some (Inr (t', obbs', ic'))"
    and "arena_ok t"
  shows "\<exists>cnt. query X t' hits q
           = Some (Inr (hits @ concat (map (node_particles t') (filter (reached X t' q) (leaves t'))), cnt))
         \<and> cnt \<le> m_num_nodes t'"
proof -
  from buildTree_built[OF assms] obtain tr where b: "built t' N tr" ..
  have "tests X q tr \<le> m_num_nodes t'" using b tests_le[of X q tr] by (simp add: built_def)
  with query_built[OF b, of X hits q] show ?thesis by blast
qed

theorem query_emission_witness:
  "query (interval_env (\<lambda>_. True)) example_tree [7] (10, 10) = Some (Inr ([7, 2], 5))
   \<and> concat (map (node_particles example_tree)
        (filter (reached (interval_env (\<lambda>_. True)) example_tree (10, 10)) (leaves example_tree))) = [2]"
  using query_emission[OF example_build example_arena_ok, of "[7]" "(10, 10)"] example_query
  by simp


subsection \<open>A fitter whose boxes are not nested\<close>

text \<open>
  A one-dimensional fitter that centres the box on the mean of the points, as a
  covariance-aligned fit does: the box of a subset can stick out of the box of the whole set.
\<close>

definition fit_centred :: "int list \<Rightarrow> int \<Rightarrow> int \<times> int" where
  "fit_centred pts r =
     (case pts of
        [] \<Rightarrow> (0, 0)
      | p # ps \<Rightarrow>
          (let c = sum_list pts div int (length pts);
               h = fold max (map (\<lambda>x. \<bar>x - c\<bar>) ps) \<bar>p - c\<bar>
           in (c - h - r, c + h + r)))"

definition centred_env :: "(int \<times> int, int, int) OBBEnv" where
  "centred_env = (interval_env (\<lambda>_. True))\<lparr>compute_obb := fit_centred\<rparr>"

definition centred_tree :: "(int \<times> int) OBBTree" where
  "centred_tree =
     \<lparr>m_nodes = [internal_node (0, 6) 1 2 OBB_INVALID_NODE 2 [0],
                 leaf_node (- 2, 4) 0 [0] 1,
                 leaf_node (5, 5) 0 [1] 1]
                @ replicate 13 (OBBNode_default centred_env 1),
      m_num_nodes = 3, m_node_capacity = 16, m_root = 0, m_mapping = [1, 2]\<rparr>"

lemma centred_build:
  "buildTree centred_env 1 OBBTree_new [(- 2, 4), (5, 5)] [[0, 0, 0, 4], [5, 5, 5, 5]] 0 2
   = Some (Inr (centred_tree, [(- 2, 4), (5, 5)], [[0, 0, 0, 4], [5, 5, 5, 5]]))"
  by (simp add: build_evals centred_env_def fit_centred_def centred_tree_def leaf_node_def internal_node_def)

theorem query_emission_counterexample:
  "buildTree centred_env 1 OBBTree_new [(- 2, 4), (5, 5)] [[0, 0, 0, 4], [5, 5, 5, 5]] 0 2
     = Some (Inr (centred_tree, [(- 2, 4), (5, 5)], [[0, 0, 0, 4], [5, 5, 5, 5]]))
   \<and> isNodeLeaf centred_tree 1 \<and> node_particles centred_tree 1 = [0]
   \<and> overlap centred_env (obb (m_nodes centred_tree ! 1)) (- 2, - 1)
   \<and> query centred_env centred_tree [] (- 2, - 1) = Some (Inr ([], 1))"
  using centred_build
  by (simp add: query_evals isNodeLeaf_def centred_env_def centred_tree_def leaf_node_def internal_node_def)

subsection \<open>Soundness of the query\<close>

text \<open>
  C3, as amended. Every particle index that \<open>query\<close> appends is stored in a leaf whose node
  OBB overlaps the query box. The OBB of the particle itself is not tested.
\<close>

theorem query_soundness:
  assumes "buildTree X node_capacity t obbs internal_coordinates vertex_radius N = Some (Inr (t', obbs', ic'))"
    and "arena_ok t"
    and "query X t' hits q = Some (Inr (hits', cnt))"
    and "p \<in> set (drop (length hits) hits')"
  shows "\<exists>k<m_num_nodes t'. isNodeLeaf t' k \<and> overlap X (obb (m_nodes t' ! k)) q
            \<and> p \<in> set (node_particles t' k)"
proof -
  from buildTree_built[OF assms(1,2)] obtain tr where b: "built t' N tr" ..
  from query_built[OF b, of X hits q] assms(3)
  have "hits' = hits @ concat (map (node_particles t') (filter (reached X t' q) (leaves t')))" by simp
  with assms(4) obtain k where k: "k \<in> set (leaves t')" "reached X t' q k" "p \<in> set (node_particles t' k)"
    by auto
  from k(2) have "overlap X (obb (m_nodes t' ! k)) q" by (subst (asm) reached_unfold) simp
  with k show ?thesis by (auto simp: leaves_def)
qed

theorem query_soundness_witness:
  "\<exists>k<m_num_nodes example_tree. isNodeLeaf example_tree k
       \<and> overlap (interval_env (\<lambda>_. True)) (obb (m_nodes example_tree ! k)) (10, 10)
       \<and> 2 \<in> set (node_particles example_tree k)"
  using query_soundness[OF example_build example_arena_ok example_query, of 2]
  by simp

definition pair_tree :: "(int \<times> int) OBBTree" where
  "pair_tree =
     \<lparr>m_nodes = [leaf_node (0, 10) OBB_INVALID_NODE [0, 1] 2]
                @ replicate 15 (OBBNode_default (interval_env (\<lambda>_. True)) 2),
      m_num_nodes = 1, m_node_capacity = 16, m_root = 0, m_mapping = [0, 0]\<rparr>"

lemma pair_build:
  "buildTree (interval_env (\<lambda>_. True)) 2 OBBTree_new [(0, 1), (9, 10)] [[0, 1], [9, 10]] 0 2
   = Some (Inr (pair_tree, [(0, 1), (9, 10)], [[0, 1], [9, 10]]))"
  by (simp add: build_evals pair_tree_def leaf_node_def)

theorem query_soundness_counterexample:
  "buildTree (interval_env (\<lambda>_. True)) 2 OBBTree_new [(0, 1), (9, 10)] [[0, 1], [9, 10]] 0 2
     = Some (Inr (pair_tree, [(0, 1), (9, 10)], [[0, 1], [9, 10]]))
   \<and> query (interval_env (\<lambda>_. True)) pair_tree [] (0, 0) = Some (Inr ([0, 1], 1))
   \<and> \<not> overlap (interval_env (\<lambda>_. True)) ([(0, 1), (9, 10)] ! 1) (0, 0)"
  using pair_build
  by (simp add: query_evals pair_tree_def leaf_node_def)

subsection \<open>Completeness of the query\<close>

definition overlap_monotone :: "('obb, 'pt, 'r) OBBEnv \<Rightarrow> ('obb \<Rightarrow> 'obb \<Rightarrow> bool) \<Rightarrow> bool" where
  "overlap_monotone X encloses \<longleftrightarrow> (\<forall>a b q. overlap X a q \<and> encloses b a \<longrightarrow> overlap X b q)"

text \<open>Every internal node's OBB encloses the OBBs of the nodes below it and of the particles
  stored in the leaves below it (\<open>P ! p\<close> is the OBB of particle \<open>p\<close>).\<close>

definition descendants_enclosed :: "('obb \<Rightarrow> 'obb \<Rightarrow> bool) \<Rightarrow> 'obb OBBTree \<Rightarrow> 'obb list \<Rightarrow> bool" where
  "descendants_enclosed encloses t P \<longleftrightarrow>
     (\<forall>k<m_num_nodes t. \<not> isNodeLeaf t k \<longrightarrow>
        (\<forall>j. descendant (m_nodes t) k j \<and> j \<noteq> k \<longrightarrow>
           encloses (obb (m_nodes t ! k)) (obb (m_nodes t ! j))
           \<and> (isNodeLeaf t j \<longrightarrow> (\<forall>p\<in>set (node_particles t j). encloses (obb (m_nodes t ! k)) (P ! p)))))"

text \<open>Every leaf's OBB encloses the OBBs of the particles stored in it.\<close>

definition particles_enclosed :: "('obb \<Rightarrow> 'obb \<Rightarrow> bool) \<Rightarrow> 'obb OBBTree \<Rightarrow> 'obb list \<Rightarrow> bool" where
  "particles_enclosed encloses t P \<longleftrightarrow>
     (\<forall>k<m_num_nodes t. isNodeLeaf t k \<longrightarrow>
        (\<forall>p\<in>set (node_particles t k). encloses (obb (m_nodes t ! k)) (P ! p)))"

lemma repr_complete:
  assumes mono: "overlap_monotone X encloses" and de: "descendants_enclosed encloses t P"
    and pe: "particles_enclosed encloses t P"
  shows "repr sk (m_nodes t) mp k pa tr \<Longrightarrow> k + nodes_of tr \<le> m_num_nodes t \<Longrightarrow>
    p \<in> set (particles_of tr) \<Longrightarrow> overlap X (P ! p) q \<Longrightarrow>
    overlap X (obb (m_nodes t ! k)) q \<and> p \<in> set (emit X q tr)"
proof (induction tr arbitrary: k pa)
  case (Leaf ob ps)
  from Leaf.prems have k: "k < m_num_nodes t" and lf: "isNodeLeaf t k" and ob: "obb (m_nodes t ! k) = ob"
    by (simp_all add: isNodeLeaf_def)
  have "p \<in> set (node_particles t k)" using repr_leaf_particles[OF Leaf.prems(1)] Leaf.prems(3) by simp
  with pe k lf have "encloses (obb (m_nodes t ! k)) (P ! p)" by (auto simp: particles_enclosed_def)
  with mono Leaf.prems(4) have "overlap X (obb (m_nodes t ! k)) q" unfolding overlap_monotone_def by blast
  then show ?case using ob Leaf.prems(3) by simp
next
  case (Internal ob l r)
  from Internal.prems have k: "k < m_num_nodes t" and nl: "\<not> isNodeLeaf t k" and ob: "obb (m_nodes t ! k) = ob"
    and lf: "left (m_nodes t ! k) = k + 1" and rg: "right (m_nodes t ! k) = k + 1 + nodes_of l"
    and ne: "left (m_nodes t ! k) \<noteq> OBB_INVALID_NODE"
    and rl: "repr sk (m_nodes t) mp (k + 1) k l" and rr: "repr sk (m_nodes t) mp (k + 1 + nodes_of l) k r"
    by (simp_all add: isNodeLeaf_def)
  have dl: "descendant (m_nodes t) k (k + 1)"
    using descendant.in_left[OF ne, of "k + 1"] lf by (simp add: descendant.self)
  have dr: "descendant (m_nodes t) k (k + 1 + nodes_of l)"
    using descendant.in_right[OF ne, of "k + 1 + nodes_of l"] rg by (simp add: descendant.self)
  have el: "encloses (obb (m_nodes t ! k)) (obb (m_nodes t ! (k + 1)))"
    using de k nl dl unfolding descendants_enclosed_def by (metis Suc_eq_plus1 n_not_Suc_n)
  have er: "encloses (obb (m_nodes t ! k)) (obb (m_nodes t ! (k + 1 + nodes_of l)))"
  proof -
    have "k + 1 + nodes_of l \<noteq> k" by simp
    with de k nl dr show ?thesis unfolding descendants_enclosed_def by blast
  qed
  from Internal.prems(3) consider "p \<in> set (particles_of l)" | "p \<in> set (particles_of r)" by auto
  then show ?case
  proof cases
    case 1
    from Internal.IH(1)[OF rl _ 1 Internal.prems(4)] Internal.prems(2)
    have c: "overlap X (obb (m_nodes t ! (k + 1))) q" "p \<in> set (emit X q l)" by simp_all
    from mono c(1) el have "overlap X (obb (m_nodes t ! k)) q" unfolding overlap_monotone_def by blast
    then show ?thesis using c(2) ob by simp
  next
    case 2
    from Internal.IH(2)[OF rr _ 2 Internal.prems(4)] Internal.prems(2)
    have c: "overlap X (obb (m_nodes t ! (k + 1 + nodes_of l))) q" "p \<in> set (emit X q r)" by simp_all
    from mono c(1) er have "overlap X (obb (m_nodes t ! k)) q" unfolding overlap_monotone_def by blast
    then show ?thesis using c(2) ob by simp
  qed
qed

text \<open>
  C2, as amended. If every internal node's OBB encloses the OBBs below it, every leaf's OBB
  encloses the OBBs of the particles stored in it, and overlap is monotone with respect to
  enclosure, then every particle whose OBB overlaps the query box is among the particles that
  \<open>query\<close> appends; \<open>obbs ! p\<close> is the OBB of particle \<open>p\<close> as passed to \<open>buildTree\<close>.
\<close>

theorem query_completeness:
  assumes "buildTree X node_capacity t obbs internal_coordinates vertex_radius N = Some (Inr (t', obbs', ic'))"
    and "arena_ok t"
    and "overlap_monotone X encloses"
    and "descendants_enclosed encloses t' obbs"
    and "particles_enclosed encloses t' obbs"
    and "p < N" and "overlap X (obbs ! p) q"
  shows "\<exists>hits' cnt. query X t' hits q = Some (Inr (hits', cnt)) \<and> p \<in> set (drop (length hits) hits')"
proof -
  from buildTree_built[OF assms(1,2)] obtain tr where b: "built t' N tr" ..
  then have rep: "repr True (m_nodes t') (m_mapping t') 0 OBB_INVALID_NODE tr"
    and n: "m_num_nodes t' = nodes_of tr" and ms: "mset (particles_of tr) = mset [0..<N]"
    by (simp_all add: built_def)
  have "p \<in> set (particles_of tr)" using mset_upt_distinct[OF ms] assms(6) by simp
  from repr_complete[OF assms(3,4,5) rep _ this assms(7)] n
  have "p \<in> set (emit X q tr)" by simp
  with query_built_emit[OF b, of X hits q] show ?thesis by simp
qed

definition interval_encloses :: "int \<times> int \<Rightarrow> int \<times> int \<Rightarrow> bool" where
  "interval_encloses b a \<longleftrightarrow> fst b \<le> fst a \<and> snd a \<le> snd b"

lemma interval_overlap_monotone: "overlap_monotone (interval_env ok) interval_encloses"
  by (auto simp: overlap_monotone_def interval_env_def interval_encloses_def)


lemma descendants_enclosedI:
  assumes "built t N tr"
    and "\<forall>k<m_num_nodes t. \<not> isNodeLeaf t k \<longrightarrow>
        (\<forall>d<skip (m_nodes t ! k).
           encloses (obb (m_nodes t ! k)) (obb (m_nodes t ! (k + 1 + d)))
           \<and> (isNodeLeaf t (k + 1 + d) \<longrightarrow>
                (\<forall>p\<in>set (node_particles t (k + 1 + d)). encloses (obb (m_nodes t ! k)) (P ! p))))"
  shows "descendants_enclosed encloses t P"
  unfolding descendants_enclosed_def
proof (intro allI impI, elim conjE)
  fix k j
  assume k: "k < m_num_nodes t" and nl: "\<not> isNodeLeaf t k"
    and d: "descendant (m_nodes t) k j" and ne: "j \<noteq> k"
  from built_layout[OF assms(1) k] nl
  have "{j. descendant (m_nodes t) k j} = {k..<k + skip (m_nodes t ! k) + 1}"
    by (simp add: isNodeLeaf_def)
  moreover from d have "j \<in> {j. descendant (m_nodes t) k j}" by simp
  ultimately have "j \<in> {k..<k + skip (m_nodes t ! k) + 1}" by simp
  with ne have "j - (k + 1) < skip (m_nodes t ! k)" and j: "j = k + 1 + (j - (k + 1))" by auto
  with assms(2) k nl
  have "encloses (obb (m_nodes t ! k)) (obb (m_nodes t ! (k + 1 + (j - (k + 1)))))
           \<and> (isNodeLeaf t (k + 1 + (j - (k + 1))) \<longrightarrow>
                (\<forall>p\<in>set (node_particles t (k + 1 + (j - (k + 1)))). encloses (obb (m_nodes t ! k)) (P ! p)))"
    by blast
  with j show "encloses (obb (m_nodes t ! k)) (obb (m_nodes t ! j))
           \<and> (isNodeLeaf t j \<longrightarrow> (\<forall>p\<in>set (node_particles t j). encloses (obb (m_nodes t ! k)) (P ! p)))"
    by simp
qed

lemma all_less_numeral: "(\<forall>k<numeral v. P k) \<longleftrightarrow> (\<forall>k<pred_numeral v. P k) \<and> P (pred_numeral v)"
  by (simp add: numeral_eq_Suc less_Suc_eq) blast

lemma all_less_Suc_0: "(\<forall>k<Suc 0. P k) \<longleftrightarrow> P 0"
  by simp

lemma node_particles_take:
  "num_particles (m_nodes t ! k) \<le> length (particles (m_nodes t ! k)) \<Longrightarrow>
   node_particles t k = take (num_particles (m_nodes t ! k)) (particles (m_nodes t ! k))"
  by (simp add: node_particles_def map_nth_take)

lemmas tree_evals = isNodeLeaf_def node_particles_take interval_encloses_def leaf_node_def internal_node_def
  OBB_INVALID_NODE_def all_less_numeral all_less_Suc_0

lemma example_descendants_enclosed:
  "descendants_enclosed interval_encloses example_tree [(0, 1), (20, 21), (10, 11)]"
proof -
  from buildTree_built[OF example_build example_arena_ok] obtain tr where "built example_tree 3 tr" ..
  then show ?thesis
    by (rule descendants_enclosedI) (simp add: example_tree_def tree_evals)
qed

lemma example_particles_enclosed:
  "particles_enclosed interval_encloses example_tree [(0, 1), (20, 21), (10, 11)]"
  by (simp add: particles_enclosed_def example_tree_def tree_evals)

theorem query_completeness_witness:
  "overlap (interval_env (\<lambda>_. True)) ([(0, 1), (20, 21), (10, 11)] ! 2) (10, 10)
   \<and> (\<exists>hits' cnt. query (interval_env (\<lambda>_. True)) example_tree [7] (10, 10) = Some (Inr (hits', cnt))
         \<and> 2 \<in> set (drop (length [7 :: nat]) hits'))"
proof -
  have o: "overlap (interval_env (\<lambda>_. True)) ([(0, 1), (20, 21), (10, 11)] ! 2) (10, 10)"
    by (simp add: interval_env_def)
  have p: "(2 :: nat) < 3" by simp
  from query_completeness[OF example_build example_arena_ok interval_overlap_monotone
      example_descendants_enclosed example_particles_enclosed p o, of "[7]"] o
  show ?thesis by simp
qed

definition gap_tree :: "(int \<times> int) OBBTree" where
  "gap_tree =
     \<lparr>m_nodes = [internal_node (0, 30) 1 2 OBB_INVALID_NODE 2 [0],
                 leaf_node (0, 5) 0 [0] 1,
                 leaf_node (25, 30) 0 [1] 1]
                @ replicate 13 (OBBNode_default (interval_env (\<lambda>_. True)) 1),
      m_num_nodes = 3, m_node_capacity = 16, m_root = 0, m_mapping = [1, 2]\<rparr>"

lemma gap_build:
  "buildTree (interval_env (\<lambda>_. True)) 1 OBBTree_new [(0, 10), (20, 30)] [[0, 5], [25, 30]] 0 2
   = Some (Inr (gap_tree, [(0, 10), (20, 30)], [[0, 5], [25, 30]]))"
  by (simp add: build_evals gap_tree_def leaf_node_def internal_node_def)

lemma gap_descendants_enclosed:
  "descendants_enclosed interval_encloses gap_tree [(0, 10), (20, 30)]"
proof -
  from buildTree_built[OF gap_build example_arena_ok] obtain tr where "built gap_tree 2 tr" ..
  then show ?thesis
    by (rule descendants_enclosedI) (simp add: gap_tree_def tree_evals)
qed

theorem query_completeness_counterexample:
  "buildTree (interval_env (\<lambda>_. True)) 1 OBBTree_new [(0, 10), (20, 30)] [[0, 5], [25, 30]] 0 2
     = Some (Inr (gap_tree, [(0, 10), (20, 30)], [[0, 5], [25, 30]]))
   \<and> overlap_monotone (interval_env (\<lambda>_. True)) interval_encloses
   \<and> descendants_enclosed interval_encloses gap_tree [(0, 10), (20, 30)]
   \<and> overlap (interval_env (\<lambda>_. True)) ([(0, 10), (20, 30)] ! 0) (7, 8)
   \<and> query (interval_env (\<lambda>_. True)) gap_tree [] (7, 8) = Some (Inr ([], 3))"
  using gap_build interval_overlap_monotone gap_descendants_enclosed
  by (simp add: query_evals gap_tree_def leaf_node_def internal_node_def)

subsection \<open>Termination of the build\<close>

lemma buildNode_returns:
  assumes c: "0 < c"
  shows "\<exists>y. buildNode X c r t obbs idx ic start len pa = Some y"
proof (induction len arbitrary: t obbs idx ic start pa rule: less_induct)
  case (less len)
  show ?case
  proof (cases "start < length obbs")
    case False
    then show ?thesis by (simp add: buildNode_oob_obbs)
  next
    case a: True
    show ?thesis
    proof (cases "start + len \<le> length ic")
      case False
      with a show ?thesis by (simp add: buildNode_oob_coords)
    next
      case b: True
      show ?thesis
      proof (cases "len \<le> c")
        case True
        show ?thesis by (simp add: buildNode_leaf[OF a b True] split: sum.splits prod.splits)
      next
        case nl: False
        note unf = buildNode_internal[OF a b nl, where X=X and r=r and t=t and idx=idx and pa=pa, folded fitted_def]
        show ?thesis
        proof (cases "allocateNode X c t")
          case (Inl e)
          then show ?thesis by (simp add: unf)
        next
          case (Inr p)
          obtain t1 k where p: "p = (t1, k)" by (cases p)
          note al = Inr[unfolded p]
          show ?thesis
          proof (cases "split_range X (fitted X r ic start len) start obbs idx ic len")
            case (Inl e)
            then show ?thesis by (simp add: unf al)
          next
            case (Inr q)
            obtain obbs1 idx1 ic1 sr where q: "q = (obbs1, idx1, ic1, sr)" by (cases q)
            note sp = Inr[unfolded q]
            have "2 \<le> len" using nl c by simp
            from split_range_Inr(4)[OF sp this] this have sr: "sr < len" "len - sr < len" by auto
            from less.IH[OF sr(1)] obtain y1 where
              y1: "buildNode X c r t1 obbs1 idx1 ic1 start sr k = Some y1" by blast
            show ?thesis
            proof (cases y1)
              case (Inl e)
              then show ?thesis by (simp add: unf al sp y1)
            next
              case (Inr u)
              obtain t2 obbs2 idx2 ic2 nl' where u: "u = (t2, obbs2, idx2, ic2, nl')" by (cases u)
              from less.IH[OF sr(2)] obtain y2 where
                y2: "buildNode X c r t2 obbs2 idx2 ic2 (start + sr) (len - sr) k = Some y2" by blast
              show ?thesis
                by (simp add: unf al sp y1 Inr u y2 split: sum.splits prod.splits)
            qed
          qed
        qed
      qed
    qed
  qed
qed

lemma buildTree_returns:
  assumes c: "0 < c" and ok: "arena_ok t"
  shows "\<exists>y. buildTree X c t obbs ic r N = Some y"
proof -
  let ?t0 = "init t N"
  from buildNode_returns[OF c, where X=X and r=r and t="?t0" and obbs=obbs and idx="[0..<N]" and ic=ic
      and start=0 and len=N and pa=OBB_INVALID_NODE]
  obtain y1 where
    y1: "buildNode X c r ?t0 obbs [0..<N] ic 0 N OBB_INVALID_NODE = Some y1" ..
  show ?thesis
  proof (cases y1)
    case (Inl e)
    then show ?thesis using y1 by (simp add: buildTree_def)
  next
    case (Inr u)
    obtain t1 obbs1 idx1 ic1 root where u: "u = (t1, obbs1, idx1, ic1, root)" by (cases u)
    note bn = y1[unfolded Inr u]
    have inv0: "arena_inv ?t0" using ok by (simp add: arena_inv_def arena_ok_def init_def)
    from buildNode_Inr[OF bn] inv0
    have post: "build_post ?t0 obbs [0..<N] ic 0 N OBB_INVALID_NODE t1 obbs1 idx1 ic1 root" by simp
    then obtain tr where
      root: "root = 0" and inv1: "arena_inv t1"
      and rep: "repr False (m_nodes t1) (m_mapping t1) 0 OBB_INVALID_NODE tr"
      unfolding build_post_def by (auto simp: init_def)
    have lt: "length (m_nodes (t1\<lparr>m_root := root\<rparr>)) < UINT_RANGE"
      using inv1 by (simp add: arena_inv_def arena_ok_def)
    from updateSkip_repr[of "t1\<lparr>m_root := root\<rparr>" "m_mapping t1" 0 OBB_INVALID_NODE tr] rep lt
    obtain ns' where
      "updateSkip (t1\<lparr>m_root := root\<rparr>) 0 = Some (Inr (t1\<lparr>m_root := root, m_nodes := ns'\<rparr>, nodes_of tr))"
      by auto
    then show ?thesis using bn root by (simp add: buildTree_def)
  qed
qed

text \<open>
  C7. With a leaf capacity of at least one the build returns: in the internal case the two
  guards leave \<open>1 \<le> start_right \<le> len - 1\<close>, both recursive calls of \<open>buildNode\<close> get a non-empty,
  strictly shorter sub-range, and \<open>buildNode\<close> and \<open>buildTree\<close> yield a result (a tree or an
  error) on every input, whatever the sign test of the partition answers.
\<close>

theorem buildNode_terminates:
  assumes "0 < node_capacity"
  shows "(\<exists>y. buildNode X node_capacity vertex_radius t obbs idx ic start len parent_idx = Some y)
     \<and> (node_capacity < len \<and> split_range X my_obb start obbs idx ic len = Inr (obbs_p, idx_p, ic_p, start_right)
          \<longrightarrow> 1 \<le> start_right \<and> start_right \<le> len - 1 \<and> start_right < len \<and> len - start_right < len)
     \<and> (arena_ok t \<longrightarrow> (\<exists>y. buildTree X node_capacity t obbs ic vertex_radius N = Some y))"
proof -
  have 1: "\<exists>y. buildNode X node_capacity vertex_radius t obbs idx ic start len parent_idx = Some y"
    by (rule buildNode_returns[OF assms])
  have 2: "1 \<le> start_right \<and> start_right \<le> len - 1 \<and> start_right < len \<and> len - start_right < len"
    if h: "node_capacity < len \<and> split_range X my_obb start obbs idx ic len = Inr (obbs_p, idx_p, ic_p, start_right)"
  proof -
    from h have "2 \<le> len" using assms by simp
    from split_range_Inr(4)[OF conjunct2[OF h] this] this show ?thesis by auto
  qed
  have 3: "\<exists>y. buildTree X node_capacity t obbs ic vertex_radius N = Some y" if "arena_ok t"
    by (rule buildTree_returns[OF assms that])
  from 1 2 3 show ?thesis by blast
qed

text \<open>Five identical boxes: every centre projects to the right of the split plane.\<close>

lemma coincident_split:
  "split_range (interval_env (\<lambda>_. True)) (1, 3) 0 [(1, 3), (1, 3), (1, 3), (1, 3), (1, 3)] [0, 1, 2, 3, 4]
     [[1, 3], [1, 3], [1, 3], [1, 3], [1, 3]] 5
   = Inr ([(1, 3), (1, 3), (1, 3), (1, 3), (1, 3)], [1, 2, 3, 4, 0],
          [[1, 3], [1, 3], [1, 3], [1, 3], [1, 3]], 1)"
  by (simp add: split_range_def partition_sweep.simps swap_def interval_env_def Let_def list_update_numeral)

theorem buildNode_terminates_witness:
  "(\<exists>y. buildNode (interval_env (\<lambda>_. True)) 1 0 (init OBBTree_new 5) [(1, 3), (1, 3), (1, 3), (1, 3), (1, 3)]
          [0, 1, 2, 3, 4] [[1, 3], [1, 3], [1, 3], [1, 3], [1, 3]] 0 5 OBB_INVALID_NODE = Some y)
   \<and> (\<exists>y. buildTree (interval_env (\<lambda>_. True)) 1 OBBTree_new [(1, 3), (1, 3), (1, 3), (1, 3), (1, 3)]
          [[1, 3], [1, 3], [1, 3], [1, 3], [1, 3]] 0 5 = Some y)
   \<and> split_range (interval_env (\<lambda>_. True)) (1, 3) 0 [(1, 3), (1, 3), (1, 3), (1, 3), (1, 3)] [0, 1, 2, 3, 4]
        [[1, 3], [1, 3], [1, 3], [1, 3], [1, 3]] 5
      = Inr ([(1, 3), (1, 3), (1, 3), (1, 3), (1, 3)], [1, 2, 3, 4, 0],
             [[1, 3], [1, 3], [1, 3], [1, 3], [1, 3]], 1)
   \<and> (1 :: nat) \<le> 5 - 1"
proof -
  have c: "(0 :: nat) < 1" by simp
  note T1 = buildNode_terminates[OF c, where X="interval_env (\<lambda>_. True)" and t="init OBBTree_new 5"
      and obbs="[(1, 3), (1, 3), (1, 3), (1, 3), (1, 3)]" and ic="[[1, 3], [1, 3], [1, 3], [1, 3], [1, 3]]"
      and idx="[0, 1, 2, 3, 4]" and start=0 and len=5 and parent_idx=OBB_INVALID_NODE
      and vertex_radius=0 and my_obb="(1, 3)" and N=5
      and obbs_p="[(1, 3), (1, 3), (1, 3), (1, 3), (1, 3)]" and idx_p="[1, 2, 3, 4, 0]"
      and ic_p="[[1, 3], [1, 3], [1, 3], [1, 3], [1, 3]]" and start_right=1]
  note T2 = buildNode_terminates[OF c, where X="interval_env (\<lambda>_. True)" and t="OBBTree_new"
      and obbs="[(1, 3), (1, 3), (1, 3), (1, 3), (1, 3)]" and ic="[[1, 3], [1, 3], [1, 3], [1, 3], [1, 3]]"
      and idx="[0, 1, 2, 3, 4]" and start=0 and len=5 and parent_idx=OBB_INVALID_NODE
      and vertex_radius=0 and my_obb="(1, 3)" and N=5
      and obbs_p="[(1, 3), (1, 3), (1, 3), (1, 3), (1, 3)]" and idx_p="[1, 2, 3, 4, 0]"
      and ic_p="[[1, 3], [1, 3], [1, 3], [1, 3], [1, 3]]" and start_right=1]
  from T1 have a: "\<exists>y. buildNode (interval_env (\<lambda>_. True)) 1 0 (init OBBTree_new 5) [(1, 3), (1, 3), (1, 3), (1, 3), (1, 3)]
          [0, 1, 2, 3, 4] [[1, 3], [1, 3], [1, 3], [1, 3], [1, 3]] 0 5 OBB_INVALID_NODE = Some y"
    by (rule conjunct1)
  from T2 example_arena_ok
  have b: "\<exists>y. buildTree (interval_env (\<lambda>_. True)) 1 OBBTree_new [(1, 3), (1, 3), (1, 3), (1, 3), (1, 3)]
          [[1, 3], [1, 3], [1, 3], [1, 3], [1, 3]] 0 5 = Some y"
    by blast
  from T1 coincident_split have d: "(1 :: nat) \<le> 5 - 1" by simp
  from a b coincident_split d show ?thesis by blast
qed

subsection \<open>Array accesses of the builder\<close>

lemma make_leaf_Inl:
  assumes "make_leaf X c t ob pa idx start len = Inl (e, t')" "arena_inv t" "start + len \<le> length idx"
    "len \<le> c" "\<forall>p\<in>set (slice idx start len). p < length (m_mapping t)"
  shows "t' = t \<and> (e = AllocationError \<or> e = OutOfBounds Nodes)"
proof (cases "allocateNode X c t")
  case (Inl a)
  with assms(1) have "a = (e, t')" by (simp add: make_leaf_def)
  with allocateNode_Inl[OF Inl[unfolded this] assms(2)] show ?thesis by simp
next
  case (Inr p)
  obtain t1 k where p: "p = (t1, k)" by (cases p)
  note al = Inr[unfolded p]
  note A = allocateNode_Inr[OF al assms(2)]
  define t2 where "t2 = t1\<lparr>m_nodes := (m_nodes t1)[k := (m_nodes t1 ! k)\<lparr>obb := ob, parent := pa, num_particles := len\<rparr>]\<rparr>"
  have wr: "write_node t1 k (\<lambda>n. n\<lparr>obb := ob, parent := pa, num_particles := len\<rparr>) = Inr t2"
    using A(4) by (simp add: write_node_def t2_def)
  have sl: "set (slice idx start len) = {idx ! (start + j) | j. j < len}"
    by (rule set_slice[OF assms(3)])
  have "\<exists>t3. assign_particles k idx start len 0 t2 = Inr t3"
  proof (rule assign_particles_in_bounds[OF assms(3)])
    show "k < length (m_nodes t2)" using A(4) by (simp add: t2_def)
    show "len \<le> length (particles (m_nodes t2 ! k))"
      using A(4,6) assms(4) by (simp add: t2_def OBBNode_default_def)
    show "\<forall>j<len. idx ! (start + j) < length (m_mapping t2)"
      using assms(5) sl A(7) by (auto simp: t2_def)
  qed
  with assms(1) al wr show ?thesis by (auto simp: make_leaf_def)
qed

definition in_bounds_pre :: "'obb OBBTree \<Rightarrow> 'obb list \<Rightarrow> nat list \<Rightarrow> 'pt list list \<Rightarrow> nat \<Rightarrow> nat \<Rightarrow> bool" where
  "in_bounds_pre t obbs idx ic start len \<longleftrightarrow>
     arena_inv t \<and> 1 \<le> len \<and> start + len \<le> length obbs \<and> start + len \<le> length idx
     \<and> start + len \<le> length ic \<and> distinct idx
     \<and> (\<forall>p\<in>set (slice idx start len). p < length (m_mapping t))"

lemma buildNode_in_bounds:
  assumes "buildNode X c r t obbs idx ic start len pa = Some y" and c: "0 < c"
  shows "in_bounds_pre t obbs idx ic start len \<longrightarrow> (\<forall>a t'. y = Inl (OutOfBounds a, t') \<longrightarrow> a = Nodes)"
  using assms(1)
proof (induction t obbs idx ic start len pa y rule: buildNode_induct)
  case (oob_obbs t obbs idx ic start len pa)
  then show ?case by (simp add: in_bounds_pre_def)
next
  case (oob_coords t obbs idx ic start len pa)
  then show ?case by (simp add: in_bounds_pre_def)
next
  case (leaf t obbs idx ic start len pa)
  show ?case
  proof (intro impI allI)
    fix a t'
    assume pre: "in_bounds_pre t obbs idx ic start len"
      and y: "(case make_leaf X c t (fitted X r ic start len) pa idx start len of
               Inl e \<Rightarrow> Inl e | Inr (t1, k) \<Rightarrow> Inr (t1, obbs, idx, ic, k)) = Inl (OutOfBounds a, t')"
    from y have "make_leaf X c t (fitted X r ic start len) pa idx start len = Inl (OutOfBounds a, t')"
      by (auto split: sum.splits)
    from make_leaf_Inl[OF this] pre leaf.hyps(3) show "a = Nodes"
      by (simp add: in_bounds_pre_def)
  qed
next
  case (alloc_fail t obbs idx ic start len pa e)
  show ?case
  proof (intro impI allI)
    fix a t'
    assume pre: "in_bounds_pre t obbs idx ic start len" and y: "Inl e = Inl (OutOfBounds a, t')"
    from y alloc_fail.hyps(4) have "allocateNode X c t = Inl (OutOfBounds a, t')" by simp
    from allocateNode_Inl[OF this] pre show "a = Nodes" by (simp add: in_bounds_pre_def)
  qed
next
  case (split_fail t obbs idx ic start len pa t1 k e)
  show ?case
  proof (intro impI allI)
    fix a t'
    assume pre: "in_bounds_pre t obbs idx ic start len"
    then have "\<exists>res. split_range X (fitted X r ic start len) start obbs idx ic len = Inr res"
      by (intro split_range_in_bounds) (simp_all add: in_bounds_pre_def)
    with split_fail.hyps(5) show "a = Nodes" by simp
  qed
next
  case (left_fail t obbs idx ic start len pa t1 k obbs1 idx1 ic1 sr e)
  show ?case
  proof (intro impI allI)
    fix a t'
    assume pre: "in_bounds_pre t obbs idx ic start len" and y: "Inl e = Inl (OutOfBounds a, t')"
    then have inv: "arena_inv t" and bound: "start + len \<le> length idx" by (simp_all add: in_bounds_pre_def)
    note A = allocateNode_Inr[OF left_fail.hyps(4) inv]
    note S = split_range_Inr[OF left_fail.hyps(5)]
    have "2 \<le> len" using left_fail.hyps(3) c by simp
    from S(4)[OF this] this have sr: "1 \<le> sr" "sr < len" by auto
    have sub: "set (slice idx1 start sr) \<subseteq> set (slice idx1 start len)"
      using sr by (intro set_slice_sub) simp_all
    have "in_bounds_pre t1 obbs1 idx1 ic1 start sr"
      using pre A(3,7) S(1,2,3) sr sub perm_within_slice_set[OF S(1) bound] perm_within_distinct[OF S(1)]
      by (auto simp: in_bounds_pre_def perm_within_def)
    with left_fail.IH y show "a = Nodes" by simp
  qed
next
  case (right_fail t obbs idx ic start len pa t1 k obbs1 idx1 ic1 sr t2 obbs2 idx2 ic2 nl e)
  show ?case
  proof (intro impI allI)
    fix a t'
    assume pre: "in_bounds_pre t obbs idx ic start len" and y: "Inl e = Inl (OutOfBounds a, t')"
    then have inv: "arena_inv t" and bound: "start + len \<le> length idx" and dist: "distinct idx"
      by (simp_all add: in_bounds_pre_def)
    note A = allocateNode_Inr[OF right_fail.hyps(4) inv]
    note S = split_range_Inr[OF right_fail.hyps(5)]
    have "2 \<le> len" using right_fail.hyps(3) c by simp
    from S(4)[OF this] this have sr: "1 \<le> sr" "sr < len" by auto
    have l1: "length idx1 = length idx" using S(1) by (simp add: perm_within_def)
    have d1: "distinct idx1" using perm_within_distinct[OF S(1)] dist by simp
    from buildNode_Inr[OF right_fail.hyps(6)] A(3) sr bound l1 d1
    have p1: "build_post t1 obbs1 idx1 ic1 start sr k t2 obbs2 idx2 ic2 nl" by simp
    then have inv2: "arena_inv t2" and pw1: "perm_within start sr idx1 idx2"
      and lo2: "length obbs2 = length obbs1" and lc2: "length ic2 = length ic1"
      and lm2: "length (m_mapping t2) = length (m_mapping t1)"
      by (simp_all add: build_post_def)
    have l2: "length idx2 = length idx" using pw1 l1 by (simp add: perm_within_def)
    have d2: "distinct idx2" using perm_within_distinct[OF pw1] d1 by simp
    have pw1': "perm_within start len idx1 idx2" using sr by (intro perm_within_widen[OF pw1]) simp_all
    have set2: "set (slice idx2 start len) = set (slice idx start len)"
      using perm_within_slice_set[OF pw1'] perm_within_slice_set[OF S(1) bound] bound l1 by simp
    have sub: "set (slice idx2 (start + sr) (len - sr)) \<subseteq> set (slice idx2 start len)"
      using sr by (intro set_slice_sub) simp_all
    have "in_bounds_pre t2 obbs2 idx2 ic2 (start + sr) (len - sr)"
      using pre inv2 lo2 lc2 lm2 l2 d2 A(7) S(2,3) sr sub set2
      by (auto simp: in_bounds_pre_def)
    with right_fail.IH(2) y show "a = Nodes" by simp
  qed
next
  case (write_fail t obbs idx ic start len pa t1 k obbs1 idx1 ic1 sr t2 obbs2 idx2 ic2 nl t3 obbs3 idx3 ic3 nr e)
  from write_fail.hyps(8) show ?case by (auto simp: write_node_def split: if_splits)
next
  case (internal t obbs idx ic start len pa t1 k obbs1 idx1 ic1 sr t2 obbs2 idx2 ic2 nl t3 obbs3 idx3 ic3 nr t4)
  show ?case by simp
qed


lemma buildTree_Inl:
  assumes run: "buildTree X c t obbs ic r N = Some (Inl (e, t'))" and ok: "arena_ok t"
  shows "buildNode X c r (init t N) obbs [0..<N] ic 0 N OBB_INVALID_NODE = Some (Inl (e, t'))"
proof -
  let ?t0 = "init t N"
  from run obtain res1 where
    bn0: "buildNode X c r ?t0 obbs [0..<N] ic 0 N OBB_INVALID_NODE = Some res1"
    and rest1: "(case res1 of
              Inl e \<Rightarrow> Some (Inl e)
            | Inr (t1, obbs1, idx1, ic1, root) \<Rightarrow>
                Option.bind (updateSkip (t1\<lparr>m_root := root\<rparr>) root)
                  (\<lambda>res. case res of
                     Inl e \<Rightarrow> Some (Inl e)
                   | Inr (t2, subtree_size) \<Rightarrow> Some (Inr (t2, obbs1, ic1)))) = Some (Inl (e, t'))"
    unfolding buildTree_def Let_def by (auto simp: bind_eq_Some_conv)
  show ?thesis
  proof (cases res1)
    case (Inl a)
    with rest1 bn0 show ?thesis by simp
  next
    case (Inr u)
    obtain t1 obbs1 idx1 ic1 root where u: "u = (t1, obbs1, idx1, ic1, root)" by (cases u)
    note bn = bn0[unfolded Inr u]
    have inv0: "arena_inv ?t0" using ok by (simp add: arena_inv_def arena_ok_def init_def)
    from buildNode_Inr[OF bn] inv0
    have post: "build_post ?t0 obbs [0..<N] ic 0 N OBB_INVALID_NODE t1 obbs1 idx1 ic1 root" by simp
    then obtain tr where
      root: "root = 0" and inv1: "arena_inv t1"
      and rep: "repr False (m_nodes t1) (m_mapping t1) 0 OBB_INVALID_NODE tr"
      unfolding build_post_def by (auto simp: init_def)
    have lt: "length (m_nodes (t1\<lparr>m_root := root\<rparr>)) < UINT_RANGE"
      using inv1 by (simp add: arena_inv_def arena_ok_def)
    from updateSkip_repr[of "t1\<lparr>m_root := root\<rparr>" "m_mapping t1" 0 OBB_INVALID_NODE tr] rep lt
    obtain ns' where
      "updateSkip (t1\<lparr>m_root := root\<rparr>) 0 = Some (Inr (t1\<lparr>m_root := root, m_nodes := ns'\<rparr>, nodes_of tr))"
      by auto
    with rest1 Inr u root show ?thesis by simp
  qed
qed

text \<open>
  C10. Under the precondition \<open>len \<ge> 1\<close> with \<open>[start, start + len)\<close> inside \<open>[0, N)\<close> no access of
  \<open>buildNode\<close> to \<open>obbs\<close>, \<open>idx\<close>, \<open>internal_coordinates\<close>, the reverse mapping or a node's particle
  array is out of bounds (the only index error left is the arena's, when doubling the capacity
  wraps). The bound \<open>len \<ge> 1\<close> is needed: an empty range at the end of the arrays reads
  \<open>obbs[start]\<close> past the end, and \<open>buildTree\<close> with \<open>N = 0\<close> reads \<open>obbs[0]\<close> of an empty array.
\<close>

theorem buildNode_accesses_in_bounds:
  assumes "0 < node_capacity" and "arena_ok t" and "m_num_nodes t \<le> m_node_capacity t"
    and "1 \<le> len" and "start + len \<le> N"
    and "length obbs = N" and "length idx = N" and "length ic = N"
    and "distinct idx" and "\<forall>p\<in>set idx. p < length (m_mapping t)"
  shows "(\<forall>a t'. buildNode X node_capacity vertex_radius t obbs idx ic start len parent_idx
                  = Some (Inl (OutOfBounds a, t')) \<longrightarrow> a = Nodes)
     \<and> buildNode X node_capacity vertex_radius t obbs idx ic N 0 parent_idx = Some (Inl (OutOfBounds Obbs, t))
     \<and> buildTree X node_capacity t [] [] vertex_radius 0 = Some (Inl (OutOfBounds Obbs, init t 0))"
proof -
  have sub: "set (slice idx start len) \<subseteq> set idx"
    unfolding slice_def by (meson set_take_subset set_drop_subset subset_trans)
  have pre: "in_bounds_pre t obbs idx ic start len"
    using assms sub by (auto simp: in_bounds_pre_def arena_inv_def)
  have 1: "\<forall>a t'. buildNode X node_capacity vertex_radius t obbs idx ic start len parent_idx
                  = Some (Inl (OutOfBounds a, t')) \<longrightarrow> a = Nodes"
    using buildNode_in_bounds[OF _ assms(1), of X vertex_radius t obbs idx ic start len parent_idx] pre
    by blast
  have 2: "buildNode X node_capacity vertex_radius t obbs idx ic N 0 parent_idx = Some (Inl (OutOfBounds Obbs, t))"
    using assms(6) by (intro buildNode_oob_obbs) simp
  have 3: "buildTree X node_capacity t [] [] vertex_radius 0 = Some (Inl (OutOfBounds Obbs, init t 0))"
    by (simp add: buildTree_def buildNode_oob_obbs)
  from 1 2 3 show ?thesis by blast
qed

theorem buildNode_accesses_in_bounds_witness:
  "buildNode (interval_env (\<lambda>_. True)) 1 0 (init OBBTree_new 3) [(0, 1), (20, 21), (10, 11)] [0, 1, 2]
      [[0, 1], [20, 21], [10, 11]] 0 3 OBB_INVALID_NODE
     \<noteq> Some (Inl (OutOfBounds Idx, init OBBTree_new 3))
   \<and> buildNode (interval_env (\<lambda>_. True)) 1 0 (init OBBTree_new 3) [(0, 1), (20, 21), (10, 11)] [0, 1, 2]
      [[0, 1], [20, 21], [10, 11]] 3 0 OBB_INVALID_NODE
     = Some (Inl (OutOfBounds Obbs, init OBBTree_new 3))"
proof -
  have h: "(0 :: nat) < 1" "arena_ok (init OBBTree_new 3 :: (int \<times> int) OBBTree)"
    "m_num_nodes (init OBBTree_new 3 :: (int \<times> int) OBBTree) \<le> m_node_capacity (init OBBTree_new 3 :: (int \<times> int) OBBTree)"
    "(1 :: nat) \<le> 3" "(0 :: nat) + 3 \<le> 3"
    "length [(0, 1), (20, 21), (10, 11) :: int \<times> int] = 3" "length [0, 1, 2 :: nat] = 3"
    "length [[0, 1], [20, 21], [10, 11 :: int]] = 3" "distinct [0, 1, 2 :: nat]"
    "\<forall>p\<in>set [0, 1, 2 :: nat]. p < length (m_mapping (init OBBTree_new 3 :: (int \<times> int) OBBTree))"
    by (simp_all add: arena_ok_def init_def OBBTree_new_def UINT_RANGE_def)
  from buildNode_accesses_in_bounds[OF h, where X="interval_env (\<lambda>_. True)" and vertex_radius=0
      and parent_idx=OBB_INVALID_NODE]
  show ?thesis by auto
qed

subsection \<open>Parent pointers in every outcome of the build\<close>

definition parents_ok :: "'obb OBBTree \<Rightarrow> bool" where
  "parents_ok t \<longleftrightarrow>
     (\<forall>k<m_num_nodes t. parent (m_nodes t ! k) = OBB_INVALID_NODE \<or> parent (m_nodes t ! k) < k)"

lemma assign_particles_parents:
  "assign_particles k idx start len i t = res \<Longrightarrow> t' = (case res of Inl (e, u) \<Rightarrow> u | Inr u \<Rightarrow> u) \<Longrightarrow>
   m_num_nodes t' = m_num_nodes t \<and> m_node_capacity t' = m_node_capacity t \<and> m_root t' = m_root t
   \<and> length (m_nodes t') = length (m_nodes t)
   \<and> (\<forall>j. parent (m_nodes t' ! j) = parent (m_nodes t ! j))"
proof (induction k idx start len i t arbitrary: res t' rule: assign_particles.induct)
  case (1 k idx start len i t)
  let ?t = "t\<lparr>m_nodes := (m_nodes t)[k := (m_nodes t ! k)
                  \<lparr>particles := (particles (m_nodes t ! k))[i := idx ! (start + i)]\<rparr>],
             m_mapping := (m_mapping t)[idx ! (start + i) := k]\<rparr>"
  show ?case
  proof (cases "i < len \<and> start + i < length idx \<and> k < length (m_nodes t)
      \<and> i < length (particles (m_nodes t ! k)) \<and> idx ! (start + i) < length (m_mapping t)")
    case False
    then have "res = Inr t \<or> (\<exists>e. res = Inl (e, t))"
      using "1.prems"(1) by (auto simp: assign_particles.simps[of k idx start len i t] Let_def split: if_splits)
    with "1.prems"(2) show ?thesis by auto
  next
    case True
    then have rec: "assign_particles k idx start len (i + 1) ?t = res"
      using "1.prems"(1) by (simp add: assign_particles.simps[of k idx start len i t] Let_def)
    from True "1.IH"[OF _ _ refl _ _ _ rec "1.prems"(2)]
    have ih: "m_num_nodes t' = m_num_nodes ?t \<and> m_node_capacity t' = m_node_capacity ?t \<and> m_root t' = m_root ?t
      \<and> length (m_nodes t') = length (m_nodes ?t)
      \<and> (\<forall>j. parent (m_nodes t' ! j) = parent (m_nodes ?t ! j))" by simp
    have "\<forall>j. parent (m_nodes ?t ! j) = parent (m_nodes t ! j)"
      using True by (simp add: nth_list_update)
    with ih show ?thesis by simp
  qed
qed

definition result_tree ::
  "(error \<times> 'obb OBBTree) + ('obb OBBTree \<times> 'obb list \<times> nat list \<times> 'pt list list \<times> nat) \<Rightarrow> 'obb OBBTree" where
  "result_tree y = (case y of Inl (e, u) \<Rightarrow> u | Inr (u, obbs, idx, ic, k) \<Rightarrow> u)"

definition grown :: "'obb OBBTree \<Rightarrow> 'obb OBBTree \<Rightarrow> bool" where
  "grown t u \<longleftrightarrow>
     arena_inv u \<and> parents_ok u \<and> m_root u = m_root t \<and> m_num_nodes t \<le> m_num_nodes u"

lemma result_tree_simps [simp]:
  "result_tree (Inl e) = snd e" "result_tree (Inr (u, obbs, idx, ic, k)) = u"
  by (simp_all add: result_tree_def split: prod.splits)

lemma grown_refl: "arena_inv t \<Longrightarrow> parents_ok t \<Longrightarrow> grown t t"
  by (simp add: grown_def)

lemma grown_trans: "grown t u \<Longrightarrow> grown u v \<Longrightarrow> grown t v"
  by (simp add: grown_def)

lemma parents_ok_alloc:
  assumes "allocateNode X c t = Inr (t1, k)" "arena_inv t" "parents_ok t"
  shows "parents_ok t1"
  unfolding parents_ok_def
proof (intro allI impI)
  fix j assume "j < m_num_nodes t1"
  note A = allocateNode_Inr[OF assms(1,2)]
  from \<open>j < m_num_nodes t1\<close> A(1,2) consider "j < m_num_nodes t" | "j = k" by linarith
  then show "parent (m_nodes t1 ! j) = OBB_INVALID_NODE \<or> parent (m_nodes t1 ! j) < j"
  proof cases
    case 1
    with A(1,5) assms(3) show ?thesis by (simp add: parents_ok_def)
  next
    case 2
    with A(6) show ?thesis by (simp add: OBBNode_default_def)
  qed
qed

lemma parents_ok_write:
  assumes "parents_ok t" "k < m_num_nodes t" "pa = OBB_INVALID_NODE \<or> pa < k"
    "\<And>n. parent (f n) = pa"
  shows "parents_ok (t\<lparr>m_nodes := (m_nodes t)[k := f (m_nodes t ! k)]\<rparr>)"
proof (cases "k < length (m_nodes t)")
  case True
  show ?thesis
    unfolding parents_ok_def
  proof (intro allI impI)
    fix j assume j: "j < m_num_nodes (t\<lparr>m_nodes := (m_nodes t)[k := f (m_nodes t ! k)]\<rparr>)"
    show "parent (m_nodes (t\<lparr>m_nodes := (m_nodes t)[k := f (m_nodes t ! k)]\<rparr>) ! j) = OBB_INVALID_NODE
        \<or> parent (m_nodes (t\<lparr>m_nodes := (m_nodes t)[k := f (m_nodes t ! k)]\<rparr>) ! j) < j"
    proof (cases "j = k")
      case True
      with \<open>k < length (m_nodes t)\<close> assms(3,4) show ?thesis by simp
    next
      case False
      with j assms(1) show ?thesis by (simp add: parents_ok_def)
    qed
  qed
next
  case False
  then show ?thesis using assms(1) by (simp add: parents_ok_def list_update_beyond)
qed

lemma make_leaf_parents:
  assumes "make_leaf X c t ob pa idx start len = res" "arena_inv t" "parents_ok t"
    "pa = OBB_INVALID_NODE \<or> pa < m_num_nodes t"
  shows "grown t (case res of Inl e \<Rightarrow> snd e | Inr (t1, k) \<Rightarrow> t1)"
proof (cases "allocateNode X c t")
  case (Inl a)
  obtain e u where a: "a = (e, u)" by (cases a)
  from allocateNode_Inl[OF Inl[unfolded a] assms(2)] have "u = t" by simp
  with Inl a assms(1) have "res = Inl (e, t)" by (simp add: make_leaf_def)
  then show ?thesis using assms(2,3) by (simp add: grown_refl)
next
  case (Inr p)
  obtain t1 k where p: "p = (t1, k)" by (cases p)
  note al = Inr[unfolded p]
  note A = allocateNode_Inr[OF al assms(2)]
  define t2 where "t2 = t1\<lparr>m_nodes := (m_nodes t1)[k := (m_nodes t1 ! k)\<lparr>obb := ob, parent := pa, num_particles := len\<rparr>]\<rparr>"
  have wr: "write_node t1 k (\<lambda>n. n\<lparr>obb := ob, parent := pa, num_particles := len\<rparr>) = Inr t2"
    using A(4) by (simp add: write_node_def t2_def)
  have ok2: "parents_ok t2"
    unfolding t2_def using parents_ok_alloc[OF al assms(2,3)] A(1,2) assms(4)
    by (intro parents_ok_write) simp_all
  have inv2: "arena_inv t2" using A(3) by (simp add: t2_def arena_inv_def arena_ok_def)
  define u where "u = (case assign_particles k idx start len 0 t2 of Inl (e, u) \<Rightarrow> u | Inr u \<Rightarrow> u)"
  from assign_particles_parents[OF refl u_def]
  have F: "m_num_nodes u = m_num_nodes t2" "m_node_capacity u = m_node_capacity t2" "m_root u = m_root t2"
    "length (m_nodes u) = length (m_nodes t2)" "\<forall>j. parent (m_nodes u ! j) = parent (m_nodes t2 ! j)"
    by simp_all
  have "parents_ok u" using ok2 F by (simp add: parents_ok_def)
  moreover have "arena_inv u" using inv2 F by (simp add: arena_inv_def arena_ok_def)
  moreover have "m_root u = m_root t" "m_num_nodes t \<le> m_num_nodes u"
    using F A(1,2,8) by (simp_all add: t2_def)
  moreover have "(case res of Inl e \<Rightarrow> snd e | Inr (t1, k) \<Rightarrow> t1) = u"
    using assms(1) al wr by (auto simp: make_leaf_def u_def split: sum.splits)
  ultimately show ?thesis by (simp add: grown_def)
qed

lemma buildNode_parents:
  assumes "buildNode X c r t obbs idx ic start len pa = Some y"
  shows "arena_inv t \<longrightarrow> parents_ok t \<longrightarrow> (pa = OBB_INVALID_NODE \<or> pa < m_num_nodes t) \<longrightarrow>
    grown t (result_tree y)"
  using assms
proof (induction t obbs idx ic start len pa y rule: buildNode_induct)
  case (oob_obbs t obbs idx ic start len pa)
  then show ?case by (simp add: grown_refl)
next
  case (oob_coords t obbs idx ic start len pa)
  then show ?case by (simp add: grown_refl)
next
  case (leaf t obbs idx ic start len pa)
  show ?case
  proof (intro impI)
    assume "arena_inv t" "parents_ok t" "pa = OBB_INVALID_NODE \<or> pa < m_num_nodes t"
    from make_leaf_parents[OF refl this]
    have "grown t (case make_leaf X c t (fitted X r ic start len) pa idx start len of
               Inl e \<Rightarrow> snd e | Inr (t1, k) \<Rightarrow> t1)" .
    then show "grown t (result_tree (case make_leaf X c t (fitted X r ic start len) pa idx start len of
               Inl e \<Rightarrow> Inl e | Inr (t1, k) \<Rightarrow> Inr (t1, obbs, idx, ic, k)))"
      by (auto split: sum.splits prod.splits)
  qed
next
  case (alloc_fail t obbs idx ic start len pa e)
  show ?case
  proof (intro impI)
    assume inv: "arena_inv t" and ok: "parents_ok t"
    obtain a u where e: "e = (a, u)" by (cases e)
    from allocateNode_Inl[OF alloc_fail.hyps(4)[unfolded e] inv] have "u = t" by simp
    with e inv ok show "grown t (result_tree (Inl e))" by (simp add: grown_refl)
  qed
next
  case (split_fail t obbs idx ic start len pa t1 k e)
  show ?case
  proof (intro impI)
    assume inv: "arena_inv t" and ok: "parents_ok t"
    note A = allocateNode_Inr[OF split_fail.hyps(4) inv]
    from parents_ok_alloc[OF split_fail.hyps(4) inv ok] A
    show "grown t (result_tree (Inl (e, t1)))" by (simp add: grown_def)
  qed
next
  case (left_fail t obbs idx ic start len pa t1 k obbs1 idx1 ic1 sr e)
  show ?case
  proof (intro impI)
    assume inv: "arena_inv t" and ok: "parents_ok t"
    note A = allocateNode_Inr[OF left_fail.hyps(4) inv]
    have g1: "grown t t1" using parents_ok_alloc[OF left_fail.hyps(4) inv ok] A by (simp add: grown_def)
    from left_fail.IH g1 A have "grown t1 (snd e)" by (simp add: grown_def)
    with g1 show "grown t (result_tree (Inl e))" by (simp add: grown_trans)
  qed
next
  case (right_fail t obbs idx ic start len pa t1 k obbs1 idx1 ic1 sr t2 obbs2 idx2 ic2 nl e)
  show ?case
  proof (intro impI)
    assume inv: "arena_inv t" and ok: "parents_ok t"
    note A = allocateNode_Inr[OF right_fail.hyps(4) inv]
    have g1: "grown t t1" using parents_ok_alloc[OF right_fail.hyps(4) inv ok] A by (simp add: grown_def)
    from right_fail.IH(1) g1 A have g2: "grown t1 t2" by (simp add: grown_def)
    from right_fail.IH(2) g2 A have "grown t2 (snd e)" by (simp add: grown_def)
    with g1 g2 show "grown t (result_tree (Inl e))" by (auto intro: grown_trans)
  qed
next
  case (write_fail t obbs idx ic start len pa t1 k obbs1 idx1 ic1 sr t2 obbs2 idx2 ic2 nl t3 obbs3 idx3 ic3 nr e)
  show ?case
  proof (intro impI)
    assume inv: "arena_inv t" and ok: "parents_ok t"
    note A = allocateNode_Inr[OF write_fail.hyps(4) inv]
    have g1: "grown t t1" using parents_ok_alloc[OF write_fail.hyps(4) inv ok] A by (simp add: grown_def)
    from write_fail.IH(1) g1 A have g2: "grown t1 t2" by (simp add: grown_def)
    from write_fail.IH(2) g2 A have g3: "grown t2 t3" by (simp add: grown_def)
    from write_fail.hyps(8) have "e = (OutOfBounds Nodes, t3)"
      by (auto simp: write_node_def split: if_splits)
    with g1 g2 g3 show "grown t (result_tree (Inl e))" by (auto intro: grown_trans)
  qed
next
  case (internal t obbs idx ic start len pa t1 k obbs1 idx1 ic1 sr t2 obbs2 idx2 ic2 nl t3 obbs3 idx3 ic3 nr t4)
  show ?case
  proof (intro impI)
    assume inv: "arena_inv t" and ok: "parents_ok t" and pa: "pa = OBB_INVALID_NODE \<or> pa < m_num_nodes t"
    note A = allocateNode_Inr[OF internal.hyps(4) inv]
    have g1: "grown t t1" using parents_ok_alloc[OF internal.hyps(4) inv ok] A by (simp add: grown_def)
    from internal.IH(1) g1 A have g2: "grown t1 t2" by (simp add: grown_def)
    from internal.IH(2) g2 A have g3: "grown t2 t3" by (simp add: grown_def)
    have g: "grown t t3" using g1 g2 g3 by (auto intro: grown_trans)
    have k3: "k < m_num_nodes t3" using g2 g3 A by (simp add: grown_def)
    from internal.hyps(8) have t4: "t4 = t3\<lparr>m_nodes := (m_nodes t3)[k := (m_nodes t3 ! k)
        \<lparr>obb := fitted X r ic start len, parent := pa, left := nl, right := nr\<rparr>]\<rparr>"
      by (auto simp: write_node_def split: if_splits)
    have "parents_ok t4"
      unfolding t4 using g k3 pa A(1) by (intro parents_ok_write) (simp_all add: grown_def)
    moreover have "arena_inv t4" using g by (simp add: t4 grown_def arena_inv_def arena_ok_def)
    ultimately show "grown t (result_tree (Inr (t4, obbs3, idx3, ic3, k)))"
      using g by (simp add: grown_def t4)
  qed
qed

subsection \<open>Allocation failure\<close>

lemma failing_build:
  "\<exists>t'. buildTree (interval_env (\<lambda>c. c \<le> 16)) 1 OBBTree_new
          [(1, 3), (1, 3), (1, 3), (1, 3), (1, 3), (1, 3), (1, 3), (1, 3), (1, 3)]
          [[1, 3], [1, 3], [1, 3], [1, 3], [1, 3], [1, 3], [1, 3], [1, 3], [1, 3]] 0 9
        = Some (Inl (AllocationError, t'))
      \<and> m_num_nodes t' = 16 \<and> m_node_capacity t' = 16
      \<and> parent (m_nodes t' ! 1) = 0
      \<and> parent (m_nodes t' ! 2) = OBB_INVALID_NODE
      \<and> parent (m_nodes t' ! 3) = 2"
  by (simp add: build_evals)


text \<open>
  C8, as amended. When \<open>buildTree\<close> stops with \<open>AllocationError\<close> the root is still
  \<open>OBB_INVALID_NODE\<close>, the occupied slots fit the block, and every parent pointer that has been
  written names an earlier slot. The internal nodes whose children were being built still hold
  the default record, so \<open>parent = OBB_INVALID_NODE\<close> also at nodes that are not the root.
  A failure of the first allocation leaves the tree as \<open>init\<close> made it.
\<close>

theorem buildTree_allocation_failure:
  assumes "buildTree X node_capacity t obbs ic vertex_radius N = Some (Inl (AllocationError, t'))"
    and "arena_ok t"
  shows "m_root t' = OBB_INVALID_NODE \<and> m_num_nodes t' \<le> m_node_capacity t'
     \<and> length (m_nodes t') = m_node_capacity t'
     \<and> (\<forall>k<m_num_nodes t'. parent (m_nodes t' ! k) = OBB_INVALID_NODE \<or> parent (m_nodes t' ! k) < k)
     \<and> (m_node_capacity t = 0 \<and> \<not> memalign_ok X 16 \<longrightarrow> t' = init t N)"
proof -
  let ?t0 = "init t N"
  from buildTree_Inl[OF assms]
  have bn: "buildNode X node_capacity vertex_radius ?t0 obbs [0..<N] ic 0 N OBB_INVALID_NODE
      = Some (Inl (AllocationError, t'))" .
  have inv0: "arena_inv ?t0" using assms(2) by (simp add: arena_inv_def arena_ok_def init_def)
  have ok0: "parents_ok ?t0" by (simp add: parents_ok_def init_def)
  from buildNode_parents[OF bn] inv0 ok0 have g: "grown ?t0 t'" by simp
  have 1: "m_root t' = OBB_INVALID_NODE \<and> m_num_nodes t' \<le> m_node_capacity t'
     \<and> length (m_nodes t') = m_node_capacity t'
     \<and> (\<forall>k<m_num_nodes t'. parent (m_nodes t' ! k) = OBB_INVALID_NODE \<or> parent (m_nodes t' ! k) < k)"
    using g by (simp add: grown_def arena_inv_def arena_ok_def parents_ok_def init_def)
  have 2: "t' = init t N" if h: "m_node_capacity t = 0 \<and> \<not> memalign_ok X 16"
  proof -
    have al: "allocateNode X node_capacity ?t0 = Inl (AllocationError, ?t0)"
      using h by (simp add: allocateNode_def init_def UINT_RANGE_def)
    have "buildNode X node_capacity vertex_radius ?t0 obbs [0..<N] ic 0 N OBB_INVALID_NODE
        = Some (Inl (AllocationError, ?t0))"
    proof (cases "0 < length obbs \<and> 0 + N \<le> length ic")
      case False
      then consider "\<not> 0 < length obbs" | "0 < length obbs" "\<not> 0 + N \<le> length ic" by blast
      then show ?thesis
      proof cases
        case 1
        from buildNode_oob_obbs[OF 1, of X node_capacity vertex_radius ?t0 "[0..<N]" ic N OBB_INVALID_NODE] bn
        show ?thesis by simp
      next
        case 2
        from buildNode_oob_coords[OF 2, of X node_capacity vertex_radius ?t0 "[0..<N]" OBB_INVALID_NODE] bn
        show ?thesis by simp
      qed
    next
      case True
      then have a: "0 < length obbs" and b: "0 + N \<le> length ic" by simp_all
      show ?thesis
      proof (cases "N \<le> node_capacity")
        case True
        show ?thesis by (simp add: buildNode_leaf[OF a b True] make_leaf_def al)
      next
        case False
        show ?thesis by (simp add: buildNode_internal[OF a b False] al)
      qed
    qed
    with bn show ?thesis by simp
  qed
  from 1 2 show ?thesis by blast
qed

theorem buildTree_allocation_failure_witness:
  "\<exists>t'. buildTree (interval_env (\<lambda>c. c \<le> 16)) 1 OBBTree_new
          [(1, 3), (1, 3), (1, 3), (1, 3), (1, 3), (1, 3), (1, 3), (1, 3), (1, 3)]
          [[1, 3], [1, 3], [1, 3], [1, 3], [1, 3], [1, 3], [1, 3], [1, 3], [1, 3]] 0 9
        = Some (Inl (AllocationError, t'))
      \<and> m_root t' = OBB_INVALID_NODE \<and> m_num_nodes t' = 16 \<and> m_node_capacity t' = 16
      \<and> parent (m_nodes t' ! 3) < 3"
proof -
  from failing_build obtain t' where
    b: "buildTree (interval_env (\<lambda>c. c \<le> 16)) 1 OBBTree_new
          [(1, 3), (1, 3), (1, 3), (1, 3), (1, 3), (1, 3), (1, 3), (1, 3), (1, 3)]
          [[1, 3], [1, 3], [1, 3], [1, 3], [1, 3], [1, 3], [1, 3], [1, 3], [1, 3]] 0 9
        = Some (Inl (AllocationError, t'))"
    and f: "m_num_nodes t' = 16" "m_node_capacity t' = 16" "parent (m_nodes t' ! 3) = 2"
    by blast
  from buildTree_allocation_failure[OF b example_arena_ok]
  have "m_root t' = OBB_INVALID_NODE" by (rule conjunct1)
  with f have "m_root t' = OBB_INVALID_NODE \<and> m_num_nodes t' = 16 \<and> m_node_capacity t' = 16
      \<and> parent (m_nodes t' ! 3) < 3"
    by simp
  with b show ?thesis by blast
qed

theorem buildTree_allocation_failure_counterexample:
  "\<exists>t'. buildTree (interval_env (\<lambda>c. c \<le> 16)) 1 OBBTree_new
          [(1, 3), (1, 3), (1, 3), (1, 3), (1, 3), (1, 3), (1, 3), (1, 3), (1, 3)]
          [[1, 3], [1, 3], [1, 3], [1, 3], [1, 3], [1, 3], [1, 3], [1, 3], [1, 3]] 0 9
        = Some (Inl (AllocationError, t'))
      \<and> m_num_nodes t' = 16 \<and> m_node_capacity t' = 16
      \<and> parent (m_nodes t' ! 1) = 0
      \<and> parent (m_nodes t' ! 2) = OBB_INVALID_NODE
      \<and> parent (m_nodes t' ! 3) = 2"
  by (rule failing_build)

subsection \<open>Update of one particle\<close>

text \<open>
  C9 (on the \<open>update\<close> modelled from the specification). On a built tree \<open>update p new_obb\<close>
  succeeds for every particle \<open>p < N\<close>; the node \<open>mapping[p]\<close> gets the new OBB and keeps its
  other fields, every other node and the rest of the tree state are unchanged. With
  \<open>mapping[p] = OBB_INVALID_NODE\<close>, or \<open>p\<close> outside the mapping, it fails with
  \<open>UnknownParticle\<close> and the tree is unchanged.
\<close>

theorem update_locality:
  assumes "buildTree X node_capacity t obbs ic vertex_radius N = Some (Inr (t', obbs', ic'))"
    and "arena_ok t" and "p < N"
  shows "m_mapping t' ! p \<noteq> OBB_INVALID_NODE
     \<and> (\<exists>u. update t' p new_obb = Inr u
            \<and> m_nodes u ! (m_mapping t' ! p) = (m_nodes t' ! (m_mapping t' ! p))\<lparr>obb := new_obb\<rparr>
            \<and> (\<forall>j. j \<noteq> m_mapping t' ! p \<longrightarrow> m_nodes u ! j = m_nodes t' ! j)
            \<and> length (m_nodes u) = length (m_nodes t')
            \<and> m_num_nodes u = m_num_nodes t' \<and> m_node_capacity u = m_node_capacity t'
            \<and> m_root u = m_root t' \<and> m_mapping u = m_mapping t')
     \<and> (\<forall>s i. \<not> i < length (m_mapping s) \<or> m_mapping s ! i = OBB_INVALID_NODE
            \<longrightarrow> update s i new_obb = Inl (UnknownParticle, s))"
proof -
  from buildTree_built[OF assms(1,2)] obtain tr where b: "built t' N tr" ..
  then have rep: "repr True (m_nodes t') (m_mapping t') 0 OBB_INVALID_NODE tr"
    and n: "m_num_nodes t' = nodes_of tr" and lm: "length (m_mapping t') = N"
    and ms: "mset (particles_of tr) = mset [0..<N]" and inv: "arena_inv t'"
    by (simp_all add: built_def)
  have "p \<in> set (particles_of tr)" using mset_upt_distinct[OF ms] assms(3) by simp
  from repr_mapping[OF rep this] n have k: "m_mapping t' ! p < m_num_nodes t'" by simp
  with inv have kl: "m_mapping t' ! p < length (m_nodes t')" and ne: "m_mapping t' ! p \<noteq> OBB_INVALID_NODE"
    by (simp_all add: arena_inv_def arena_ok_def UINT_RANGE_def OBB_INVALID_NODE_def)
  let ?u = "t'\<lparr>m_nodes := (m_nodes t')[m_mapping t' ! p := (m_nodes t' ! (m_mapping t' ! p))\<lparr>obb := new_obb\<rparr>]\<rparr>"
  have 1: "update t' p new_obb = Inr ?u" using ne lm assms(3) by (simp add: update_def)
  have 2: "m_nodes ?u ! (m_mapping t' ! p) = (m_nodes t' ! (m_mapping t' ! p))\<lparr>obb := new_obb\<rparr>
            \<and> (\<forall>j. j \<noteq> m_mapping t' ! p \<longrightarrow> m_nodes ?u ! j = m_nodes t' ! j)
            \<and> length (m_nodes ?u) = length (m_nodes t')
            \<and> m_num_nodes ?u = m_num_nodes t' \<and> m_node_capacity ?u = m_node_capacity t'
            \<and> m_root ?u = m_root t' \<and> m_mapping ?u = m_mapping t'"
    using kl by simp
  have 3: "\<forall>s i. \<not> i < length (m_mapping s) \<or> m_mapping s ! i = OBB_INVALID_NODE
            \<longrightarrow> update s i new_obb = Inl (UnknownParticle, s)"
    by (auto simp: update_def)
  from ne 1 2 3 show ?thesis by blast
qed

theorem update_locality_witness:
  "m_mapping example_tree ! 1 = 4
   \<and> (\<exists>u. update example_tree 1 (19, 22) = Inr u
          \<and> obb (m_nodes u ! 4) = (19, 22) \<and> parent (m_nodes u ! 4) = 2
          \<and> m_nodes u ! 2 = m_nodes example_tree ! 2)
   \<and> update example_tree 7 (19, 22) = Inl (UnknownParticle, example_tree)"
proof -
  have p: "(1 :: nat) < 3" by simp
  have m: "m_mapping example_tree ! 1 = 4" by (simp add: example_tree_def)
  from update_locality[OF example_build example_arena_ok p, of "(19, 22)"] m
  have "\<exists>u. update example_tree 1 (19, 22) = Inr u
          \<and> m_nodes u ! 4 = (m_nodes example_tree ! 4)\<lparr>obb := (19, 22)\<rparr>
          \<and> (\<forall>j. j \<noteq> 4 \<longrightarrow> m_nodes u ! j = m_nodes example_tree ! j)"
    by auto
  then obtain u where u: "update example_tree 1 (19, 22) = Inr u"
      "m_nodes u ! 4 = (m_nodes example_tree ! 4)\<lparr>obb := (19, 22)\<rparr>"
      "\<forall>j. j \<noteq> 4 \<longrightarrow> m_nodes u ! j = m_nodes example_tree ! j"
    by blast
  have a: "obb (m_nodes u ! 4) = (19, 22) \<and> parent (m_nodes u ! 4) = 2"
    using u(2) by (simp add: example_tree_def leaf_node_def)
  have b: "m_nodes u ! 2 = m_nodes example_tree ! 2" using u(3) by simp
  have c: "update example_tree 7 (19, 22) = Inl (UnknownParticle, example_tree)"
    by (simp add: update_def example_tree_def)
  from m u(1) a b c show ?thesis by blast
qed

subsection \<open>Build of zero particles\<close>

text \<open>
  C4. \<open>buildTree\<close> with \<open>N = 0\<close> does not produce the empty tree. \<open>buildNode\<close> is entered with the
  empty range and first reads \<open>obbs[0]\<close>: out of range when the array is empty. Where the
  array behind \<open>obbs\<close> is not empty the read is harmless, the range \<open>len = 0 \<le> node_capacity\<close> is
  a leaf, and the tree gets one node holding no particle: \<open>root = 0\<close>, \<open>num_nodes = 1\<close>, and a
  query makes one overlap test.
\<close>

theorem buildTree_zero_particles:
  "buildTree X node_capacity t [] [] vertex_radius 0 = Some (Inl (OutOfBounds Obbs, init t 0))
   \<and> (\<exists>t'. buildTree (interval_env (\<lambda>_. True)) 1 OBBTree_new [(0, 1)] [] 0 0 = Some (Inr (t', [(0, 1)], []))
          \<and> m_root t' = 0 \<and> m_num_nodes t' = 1
          \<and> query (interval_env (\<lambda>_. True)) t' [] (0, 0) = Some (Inr ([], 1)))"
proof -
  have 1: "buildTree X node_capacity t [] [] vertex_radius 0 = Some (Inl (OutOfBounds Obbs, init t 0))"
    by (simp add: buildTree_def buildNode_oob_obbs)
  have 2: "\<exists>t'. buildTree (interval_env (\<lambda>_. True)) 1 OBBTree_new [(0, 1)] [] 0 0 = Some (Inr (t', [(0, 1)], []))
          \<and> m_root t' = 0 \<and> m_num_nodes t' = 1
          \<and> query (interval_env (\<lambda>_. True)) t' [] (0, 0) = Some (Inr ([], 1))"
    by (simp add: build_evals query_evals)
  from 1 2 show ?thesis by blast
qed

end
